theory Spec2Isabelle
  imports Main "HOL-Library.Word"
begin

unbundle bit_operations_syntax

section \<open>fastlzlib.c: the zlib-like streaming interface to FastLZ\<close>

text \<open>
  A shallow embedding of \<^verbatim>\<open>src/fastlzlib.c\<close>. Bytes (\<^verbatim>\<open>Bytef\<close>) are 8-bit words. The
  \<^verbatim>\<open>uInt\<close> sizes and offsets of the C code are natural numbers; where an unsigned
  32-bit computation of the source can wrap (\<^verbatim>\<open>BUFFER_BLOCK_SIZE\<close>, the estimated
  compressed size, the sums of \<^verbatim>\<open>fastlz_compress_hdr\<close>, the conversion of the
  \<^verbatim>\<open>int block_size\<close> argument) the reduction modulo \<open>2 ^ 32\<close> is written out. All other
  \<^verbatim>\<open>uInt\<close> operations of the source are guarded by a comparison that excludes the wrap
  (\<^verbatim>\<open>dec_size - outBuffOffs\<close> under \<^verbatim>\<open>outBuffOffs < dec_size\<close>, and so on). The 32-bit
  fields of a block header are assembled and split as 32-bit words.
\<close>

type_synonym byte = "8 word"

subsection \<open>Constants\<close>

definition EXPANSION_RATIO :: nat where "EXPANSION_RATIO = 10"
definition EXPANSION_SECURITY :: nat where "EXPANSION_SECURITY = 66"
definition HEADER_SIZE :: nat where "HEADER_SIZE = 20"
definition MIN_BLOCK_SIZE :: nat where "MIN_BLOCK_SIZE = 64"
definition DEFAULT_BLOCK_SIZE :: int where "DEFAULT_BLOCK_SIZE = 32768"

definition BLOCK_TYPE_RAW :: nat where "BLOCK_TYPE_RAW = 0xc0"
definition BLOCK_TYPE_COMPRESSED :: nat where "BLOCK_TYPE_COMPRESSED = 0x0c"
definition BLOCK_TYPE_BAD_MAGIC :: nat where "BLOCK_TYPE_BAD_MAGIC = 0xffff"

definition ZFAST_LEVEL_DECOMPRESS :: int where "ZFAST_LEVEL_DECOMPRESS = - 2"

text \<open>The stream magic \<^verbatim>\<open>BLOCK_MAGIC = "FastLZ"\<close>: six letters and the terminating NUL,
  the seven bytes that \<^verbatim>\<open>memcpy\<close> and \<^verbatim>\<open>memcmp\<close> use.\<close>

definition BLOCK_MAGIC :: "byte list" where
  "BLOCK_MAGIC = [0x46, 0x61, 0x73, 0x74, 0x4C, 0x5A, 0x00]"

text \<open>
  Modelled from the spec: the header \<^verbatim>\<open>fastlzlib.h\<close> is not among the sources. It takes
  the status codes, flush modes and compression levels that the spec names from zlib;
  they are given zlib's values here (levels \<open>0\<close> to \<open>9\<close> with \<^verbatim>\<open>Z_BEST_SPEED = 1\<close>, as the
  spec says).
\<close>

definition Z_OK :: int where "Z_OK = 0"
definition Z_STREAM_END :: int where "Z_STREAM_END = 1"
definition Z_STREAM_ERROR :: int where "Z_STREAM_ERROR = - 2"
definition Z_DATA_ERROR :: int where "Z_DATA_ERROR = - 3"
definition Z_MEM_ERROR :: int where "Z_MEM_ERROR = - 4"
definition Z_BUF_ERROR :: int where "Z_BUF_ERROR = - 5"
definition Z_VERSION_ERROR :: int where "Z_VERSION_ERROR = - 6"

definition Z_NO_FLUSH :: int where "Z_NO_FLUSH = 0"
definition Z_FINISH :: int where "Z_FINISH = 4"

definition Z_NO_COMPRESSION :: int where "Z_NO_COMPRESSION = 0"
definition Z_BEST_SPEED :: int where "Z_BEST_SPEED = 1"
definition Z_BEST_COMPRESSION :: int where "Z_BEST_COMPRESSION = 9"

subsection \<open>Little-endian reads and writes\<close>

text \<open>
  \<^verbatim>\<open>READ_16(adr) = READ_8(adr) | (READ_8(adr+1) << 8)\<close> and
  \<^verbatim>\<open>READ_32(adr) = READ_16(adr) | (READ_16(adr+2) << 16)\<close>; the result is stored in a
  \<^verbatim>\<open>uInt\<close>, so it is taken as a 32-bit word. The first argument is the array, the second
  the index of \<^verbatim>\<open>adr\<close> in it.
\<close>

definition READ_8 :: "byte list \<Rightarrow> nat \<Rightarrow> 32 word" where
  "READ_8 m a = ucast (m ! a)"

definition READ_16 :: "byte list \<Rightarrow> nat \<Rightarrow> 32 word" where
  "READ_16 m a = READ_8 m a OR push_bit 8 (READ_8 m (a + 1))"

definition READ_32 :: "byte list \<Rightarrow> nat \<Rightarrow> 32 word" where
  "READ_32 m a = READ_16 m a OR push_bit 16 (READ_16 m (a + 2))"

text \<open>The bytes that \<^verbatim>\<open>WRITE_8\<close>, \<^verbatim>\<open>WRITE_16\<close> and \<^verbatim>\<open>WRITE_32\<close> store, in address order.\<close>

definition WRITE_8 :: "32 word \<Rightarrow> byte list" where
  "WRITE_8 n = [ucast (n AND 0xff)]"

definition WRITE_16 :: "32 word \<Rightarrow> byte list" where
  "WRITE_16 n = [ucast (n AND 0xff), ucast (drop_bit 8 n)]"

definition WRITE_32 :: "32 word \<Rightarrow> byte list" where
  "WRITE_32 n = WRITE_16 (n AND 0xffff) @ WRITE_16 (drop_bit 16 n)"

subsection \<open>The block header\<close>

text \<open>\<^verbatim>\<open>fastlz_write_header\<close>: the \<^verbatim>\<open>HEADER_SIZE\<close> bytes stored at \<^verbatim>\<open>dest[0..19]\<close>.\<close>

definition fastlz_write_header :: "nat \<Rightarrow> nat \<Rightarrow> nat \<Rightarrow> nat \<Rightarrow> byte list" where
  "fastlz_write_header type block_size compressed original =
     BLOCK_MAGIC @ WRITE_8 (of_nat type) @ WRITE_32 (of_nat compressed)
       @ WRITE_32 (of_nat original) @ WRITE_32 (of_nat block_size)"

text \<open>
  \<^verbatim>\<open>fastlz_read_header\<close>: the four output parameters, in the order of the C signature
  (\<^verbatim>\<open>type\<close>, \<^verbatim>\<open>block_size\<close>, \<^verbatim>\<open>compressed\<close>, \<^verbatim>\<open>original\<close>). Both \<^verbatim>\<open>original\<close> and
  \<^verbatim>\<open>block_size\<close> are read with \<^verbatim>\<open>READ_32(&source[12])\<close>.
\<close>

definition fastlz_read_header :: "byte list \<Rightarrow> nat \<times> nat \<times> nat \<times> nat" where
  "fastlz_read_header source =
     (if take 7 source = BLOCK_MAGIC
      then (unat (READ_8 source 7), unat (READ_32 source 12),
            unat (READ_32 source 8), unat (READ_32 source 12))
      else (BLOCK_TYPE_BAD_MAGIC, 0, 0, 0))"

text \<open>\<^verbatim>\<open>fastlzlibGetStreamBlockSize\<close>: \<^verbatim>\<open>length\<close> is a C \<^verbatim>\<open>int\<close>; the result is the
  \<^verbatim>\<open>uInt block_size\<close> (returned as \<^verbatim>\<open>int\<close>, compared only with \<open>0\<close> by the callers).\<close>

definition fastlzlibGetStreamBlockSize :: "byte list \<Rightarrow> int \<Rightarrow> nat" where
  "fastlzlibGetStreamBlockSize input len =
     (if len \<ge> int HEADER_SIZE
      then (case fastlz_read_header input of (block_type, block_size, str_size, dec_size) \<Rightarrow> block_size)
      else 0)"

definition fastlzlibIsCompressedStream :: "byte list \<Rightarrow> int \<Rightarrow> int" where
  "fastlzlibIsCompressedStream input len =
     (if len \<ge> int HEADER_SIZE
      then (if fastlzlibGetStreamBlockSize input len \<noteq> 0 then Z_OK else Z_DATA_ERROR)
      else Z_BUF_ERROR)"

subsection \<open>The stream descriptor and the internal state\<close>

text \<open>
  A cursor with its count (\<^verbatim>\<open>next_in\<close> with \<^verbatim>\<open>avail_in\<close>, \<^verbatim>\<open>next_out\<close> with
  \<^verbatim>\<open>avail_out\<close>) is a window into caller memory: \<open>Win xs\<close> is a valid pointer to the
  bytes \<open>xs\<close>, and the count is their number; \<open>Null n\<close> is the \<^verbatim>\<open>NULL\<close> pointer with count
  \<open>n\<close>. For the output window \<open>xs\<close> is the present content of the cells that can still be
  written.
\<close>

datatype window = Null nat | Win "byte list"

fun avail :: "window \<Rightarrow> nat" where
  "avail (Null n) = n"
| "avail (Win xs) = length xs"

fun is_null :: "window \<Rightarrow> bool" where
  "is_null (Null n) = True"
| "is_null (Win xs) = False"

text \<open>Pointer plus offset, count minus offset. \<^verbatim>\<open>NULL\<close> is moved only by \<open>0\<close> in the code
  (a \<^verbatim>\<open>NULL\<close> cursor passes the sanity check of the process routine only with count \<open>0\<close>).\<close>

fun advance :: "window \<Rightarrow> nat \<Rightarrow> window" where
  "advance (Null n) offs = Null (n - offs)"
| "advance (Win xs) offs = Win (drop offs xs)"

text \<open>The first \<open>n\<close> cells of a window; \<^verbatim>\<open>memcpy(next_out, src, size)\<close>.\<close>

fun cells :: "window \<Rightarrow> nat \<Rightarrow> byte list" where
  "cells (Null n) k = []"
| "cells (Win xs) k = take k xs"

fun store :: "window \<Rightarrow> byte list \<Rightarrow> window" where
  "store (Null n) bs = Null n"
| "store (Win xs) bs = Win (bs @ drop (length bs) xs)"

text \<open>
  \<^verbatim>\<open>struct internal_state\<close>. The arrays \<^verbatim>\<open>inHdr\<close>, \<^verbatim>\<open>inBuff\<close> and \<^verbatim>\<open>outBuff\<close> are the lists
  of their cells. The \<^verbatim>\<open>magic\<close> member, written once by \<^verbatim>\<open>fastlzlibInit\<close> and read only by
  assertions, is left out.
\<close>

record internal_state =
  level :: int
  inHdr :: "byte list"
  inHdrOffs :: nat
  block_size :: nat
  block_type :: nat
  str_size :: nat
  dec_size :: nat
  inBuff :: "byte list"
  outBuff :: "byte list"
  inBuffOffs :: nat
  outBuffOffs :: nat

text \<open>
  \<^verbatim>\<open>zfast_stream\<close>, the fields the code uses. \<open>in_win\<close> is \<^verbatim>\<open>next_in\<close> with \<^verbatim>\<open>avail_in\<close>,
  \<open>out_win\<close> is \<^verbatim>\<open>next_out\<close> with \<^verbatim>\<open>avail_out\<close>, and \<open>out_data\<close> holds the cells of caller
  memory that \<^verbatim>\<open>next_out\<close> has moved past, that is, the output delivered so far.
  \<^verbatim>\<open>total_in\<close> and \<^verbatim>\<open>total_out\<close> are \<^verbatim>\<open>uLong\<close>, taken as 64 bits wide.
  \<open>state = None\<close> is the \<^verbatim>\<open>NULL\<close> state pointer.
\<close>

record zfast_stream =
  in_win :: window
  total_in :: nat
  out_win :: window
  out_data :: "byte list"
  total_out :: nat
  msg :: "string option"
  state :: "internal_state option"

definition avail_in :: "zfast_stream \<Rightarrow> nat" where
  "avail_in s = avail (in_win s)"

definition avail_out :: "zfast_stream \<Rightarrow> nat" where
  "avail_out s = avail (out_win s)"

definition ULONG_MOD :: nat where "ULONG_MOD = 2 ^ 64"

text \<open>\<^verbatim>\<open>inSeek\<close> and \<^verbatim>\<open>outSeek\<close>. Their assertion \<^verbatim>\<open>avail >= offs\<close> is established by a
  comparison at every call site and is not modelled as a failure.\<close>

definition inSeek :: "zfast_stream \<Rightarrow> nat \<Rightarrow> zfast_stream" where
  "inSeek s offs =
     s\<lparr>in_win := advance (in_win s) offs, total_in := (total_in s + offs) mod ULONG_MOD\<rparr>"

definition outSeek :: "zfast_stream \<Rightarrow> nat \<Rightarrow> zfast_stream" where
  "outSeek s offs =
     s\<lparr>out_win := advance (out_win s) offs,
       out_data := out_data s @ cells (out_win s) offs,
       total_out := (total_out s + offs) mod ULONG_MOD\<rparr>"

text \<open>\<^verbatim>\<open>memcpy(s->next_out, src, size)\<close>.\<close>

definition memcpy_out :: "zfast_stream \<Rightarrow> byte list \<Rightarrow> zfast_stream" where
  "memcpy_out s bs = s\<lparr>out_win := store (out_win s) bs\<rparr>"

text \<open>\<^verbatim>\<open>memcpy(&dst[offs], src, size)\<close> on an array given as the list of its cells.\<close>

definition memcpy_at :: "byte list \<Rightarrow> nat \<Rightarrow> byte list \<Rightarrow> byte list" where
  "memcpy_at dst offs src = take offs dst @ src @ drop (offs + length src) dst"

definition BLOCK_SIZE :: "internal_state \<Rightarrow> nat" where
  "BLOCK_SIZE st = block_size st"

definition BUFFER_BLOCK_SIZE :: "internal_state \<Rightarrow> nat" where
  "BUFFER_BLOCK_SIZE st =
     (BLOCK_SIZE st + BLOCK_SIZE st div EXPANSION_RATIO + HEADER_SIZE * 2) mod 2 ^ 32"

definition ZFAST_IS_COMPRESSING :: "internal_state \<Rightarrow> bool" where
  "ZFAST_IS_COMPRESSING st \<longleftrightarrow> level st \<noteq> ZFAST_LEVEL_DECOMPRESS"

definition ZFAST_IS_DECOMPRESSING :: "internal_state \<Rightarrow> bool" where
  "ZFAST_IS_DECOMPRESSING st \<longleftrightarrow> \<not> ZFAST_IS_COMPRESSING st"

definition ZFAST_INPUT_IS_EMPTY :: "zfast_stream \<Rightarrow> bool" where
  "ZFAST_INPUT_IS_EMPTY s \<longleftrightarrow> avail_in s = 0"

definition ZFAST_OUTPUT_IS_FULL :: "zfast_stream \<Rightarrow> bool" where
  "ZFAST_OUTPUT_IS_FULL s \<longleftrightarrow> avail_out s = 0"

definition ZFAST_HAS_BUFFERED_OUTPUT :: "internal_state \<Rightarrow> bool" where
  "ZFAST_HAS_BUFFERED_OUTPUT st \<longleftrightarrow> outBuffOffs st < dec_size st"

subsection \<open>Faults\<close>

text \<open>What the C program does instead of returning: a failed \<^verbatim>\<open>assert\<close> (the build line
  of the source does not define \<^verbatim>\<open>NDEBUG\<close>), or a read or write through \<^verbatim>\<open>NULL\<close>.\<close>

datatype fault = Assert_Failed | Null_Deref

subsection \<open>The block compressor wrapper\<close>

definition zlibLevelToFastlz :: "int \<Rightarrow> int" where
  "zlibLevelToFastlz lvl = (if lvl \<le> Z_BEST_SPEED then 1 else 2)"

text \<open>
  \<^verbatim>\<open>fastlz_compress_hdr\<close>. The block primitive \<^verbatim>\<open>fastlz_compress_level\<close> of the included
  \<^verbatim>\<open>fastlz.c\<close> is the parameter \<open>cmp\<close>: from the level and the input block to the bytes
  it stores at \<^verbatim>\<open>output_data_start\<close>, their number being its return value. The result is
  the list of the \<^verbatim>\<open>done\<close> bytes stored at \<^verbatim>\<open>output\<close>, or the failed assertion. The sums
  under the first two assertions are \<^verbatim>\<open>uInt\<close> sums.
\<close>

definition fastlz_compress_hdr ::
  "(int \<Rightarrow> byte list \<Rightarrow> byte list) \<Rightarrow> byte list \<Rightarrow> nat \<Rightarrow> nat \<Rightarrow> int \<Rightarrow> int
     \<Rightarrow> fault + byte list" where
  "fastlz_compress_hdr cmp input output_length blk_size lvl flush =
     (case
        (if length input > 0 then
           (if length input > MIN_BLOCK_SIZE then
              (let payload = cmp lvl input in
               if (length payload + HEADER_SIZE * 2) mod 2 ^ 32 \<le> output_length
               then Inr (fastlz_write_header BLOCK_TYPE_COMPRESSED blk_size
                           (length payload) (length input) @ payload)
               else Inl Assert_Failed)
            else
              (if (length input + HEADER_SIZE * 2) mod 2 ^ 32 \<le> output_length
               then Inr (fastlz_write_header BLOCK_TYPE_RAW blk_size
                           (length input) (length input) @ input)
               else Inl Assert_Failed))
         else Inr [])
      of
        Inl f \<Rightarrow> Inl f
      | Inr block \<Rightarrow>
          (let out = (if flush = Z_FINISH
                      then block @ fastlz_write_header BLOCK_TYPE_COMPRESSED blk_size 0 0
                      else block)
           in if length out \<le> output_length then Inr out else Inl Assert_Failed))"

subsection \<open>The processing routine\<close>

text \<open>How a part of \<^verbatim>\<open>fastlzlibProcess\<close> ends: the program stops (\<open>Fails\<close>), the routine
  returns a status (\<open>Returns\<close>), or control goes on to the next part (\<open>Goes\<close>).\<close>

datatype 'a flow = Fails fault | Returns int zfast_stream internal_state | Goes 'a

text \<open>Lines 407 to 422: the buffered output is copied to \<^verbatim>\<open>next_out\<close>.\<close>

definition process_drain :: "zfast_stream \<Rightarrow> internal_state \<Rightarrow> zfast_stream \<times> internal_state" where
  "process_drain s st =
     (let size = (if dec_size st - outBuffOffs st > avail_out s then avail_out s
                  else dec_size st - outBuffOffs st)
      in if size > 0
         then (outSeek (memcpy_out s (take size (drop (outBuffOffs st) (outBuff st)))) size,
               st\<lparr>outBuffOffs := outBuffOffs st + size\<rparr>)
         else (s, st))"

text \<open>
  Lines 439 to 442, the loop that stages header bytes:
  \<^verbatim>\<open>for( ; avail_in > 0 && inHdrOffs < HEADER_SIZE ; inHdrOffs++, inSeek(s, 1))
     inHdr[inHdrOffs] = *next_in;\<close>
  It runs after the sanity check of the routine, so a \<^verbatim>\<open>NULL\<close> cursor has count \<open>0\<close> here.
\<close>

function header_loop :: "zfast_stream \<Rightarrow> internal_state \<Rightarrow> zfast_stream \<times> internal_state" where
  "header_loop s st =
     (case in_win s of
        Win (b # w) \<Rightarrow>
          (if inHdrOffs st < HEADER_SIZE
           then header_loop (inSeek s 1)
                  (st\<lparr>inHdr := (inHdr st)[inHdrOffs st := b], inHdrOffs := inHdrOffs st + 1\<rparr>)
           else (s, st))
      | _ \<Rightarrow> (s, st))"
  by pat_completeness auto
termination
  by (relation "measure (\<lambda>(s, st). avail_in s)") (auto simp: avail_in_def inSeek_def)

declare header_loop.simps [simp del]

text \<open>Lines 447 to 493: the header is complete in caller memory, complete in \<^verbatim>\<open>inHdr\<close>, or
  not complete yet. The third component of the result is the local variable
  \<^verbatim>\<open>block_size\<close>.\<close>

definition decompress_header_parse ::
  "zfast_stream \<Rightarrow> internal_state \<Rightarrow> bool \<Rightarrow> (zfast_stream \<times> internal_state \<times> nat) flow" where
  "decompress_header_parse s st may_buffer =
     (if inHdrOffs st = 0 \<and> avail_in s \<ge> HEADER_SIZE then
        (case fastlz_read_header (cells (in_win s) HEADER_SIZE)
         of (b_type, b_size, s_size, d_size) \<Rightarrow>
           if \<not> may_buffer \<and> avail_in s < s_size
           then Returns Z_BUF_ERROR (s\<lparr>msg := Some ''Need more data on input''\<rparr>) st
           else if \<not> may_buffer \<and> avail_out s < d_size
           then Returns Z_BUF_ERROR (s\<lparr>msg := Some ''Need more room on output''\<rparr>) st
           else Goes (inSeek s HEADER_SIZE,
                      st\<lparr>block_type := b_type, str_size := s_size, dec_size := d_size\<rparr>,
                      b_size))
      else if inHdrOffs st = HEADER_SIZE then
        (if \<not> may_buffer then Fails Assert_Failed
         else
           (case fastlz_read_header (inHdr st)
            of (b_type, b_size, s_size, d_size) \<Rightarrow>
              Goes (s,
                    st\<lparr>block_type := b_type, str_size := s_size, dec_size := d_size,
                       inHdrOffs := 0\<rparr>,
                    b_size)))
      else (if \<not> may_buffer then Fails Assert_Failed else Returns Z_OK s st))"

text \<open>Lines 430 to 494: the header of the next block, decompressing.\<close>

definition decompress_header ::
  "zfast_stream \<Rightarrow> internal_state \<Rightarrow> bool \<Rightarrow> (zfast_stream \<times> internal_state \<times> nat) flow" where
  "decompress_header s st may_buffer =
     (if inHdrOffs st \<noteq> 0 \<or> avail_in s < HEADER_SIZE then
        (if inHdrOffs st = 0 \<and> \<not> may_buffer
         then Returns Z_BUF_ERROR (s\<lparr>msg := Some ''Need more data on input''\<rparr>) st
         else (case header_loop s st of (s1, st1) \<Rightarrow> decompress_header_parse s1 st1 may_buffer))
      else decompress_header_parse s st may_buffer)"

text \<open>Lines 496 to 514: the size of the next block, compressing. The local
  \<^verbatim>\<open>block_size\<close> stays \<open>0\<close>.\<close>

definition compress_header_apply ::
  "zfast_stream \<Rightarrow> internal_state \<Rightarrow> nat \<Rightarrow> (zfast_stream \<times> internal_state \<times> nat) flow" where
  "compress_header_apply s st s_size =
     Goes (s, st\<lparr>block_type := BLOCK_TYPE_COMPRESSED, str_size := s_size, dec_size := 0\<rparr>, 0)"

definition compress_header ::
  "zfast_stream \<Rightarrow> internal_state \<Rightarrow> int \<Rightarrow> bool \<Rightarrow> (zfast_stream \<times> internal_state \<times> nat) flow" where
  "compress_header s st flush may_buffer =
     (if BLOCK_SIZE st > avail_in s then
        (if flush > Z_NO_FLUSH then compress_header_apply s st (avail_in s)
         else if \<not> may_buffer
         then Returns Z_BUF_ERROR (s\<lparr>msg := Some ''Need more data on input''\<rparr>) st
         else compress_header_apply s st (BLOCK_SIZE st))
      else compress_header_apply s st (BLOCK_SIZE st))"

text \<open>
  Lines 425 to 556, entered when \<^verbatim>\<open>str_size == 0\<close>. The last component of the result is
  the local pointer \<^verbatim>\<open>in\<close>: \<open>None\<close> is \<^verbatim>\<open>NULL\<close>, \<open>Some xs\<close> points to the \<^verbatim>\<open>str_size\<close> bytes
  \<open>xs\<close> of the block. \<^verbatim>\<open>in = s->next_in\<close> is \<^verbatim>\<open>NULL\<close> when \<^verbatim>\<open>next_in\<close> is.
\<close>

definition process_header ::
  "zfast_stream \<Rightarrow> internal_state \<Rightarrow> int \<Rightarrow> bool
     \<Rightarrow> (zfast_stream \<times> internal_state \<times> byte list option) flow" where
  "process_header s st flush may_buffer =
     (case (if ZFAST_IS_DECOMPRESSING st then decompress_header s st may_buffer
            else compress_header s st flush may_buffer)
      of
        Fails f \<Rightarrow> Fails f
      | Returns r s' st' \<Rightarrow> Returns r s' st'
      | Goes (s1, st1, b_size) \<Rightarrow>
          (let st2 = st1\<lparr>outBuffOffs := dec_size st1\<rparr> in
           if block_type st2 = BLOCK_TYPE_BAD_MAGIC
           then Returns Z_DATA_ERROR
                  (s1\<lparr>msg := Some ''Corrupted compressed stream (bad magic)''\<rparr>) st2
           else if block_type st2 \<noteq> BLOCK_TYPE_RAW \<and> block_type st2 \<noteq> BLOCK_TYPE_COMPRESSED
           then Returns Z_VERSION_ERROR
                  (s1\<lparr>msg := Some ''Corrupted compressed stream (illegal block type)''\<rparr>) st2
           else if b_size > BLOCK_SIZE st2
           then Returns Z_VERSION_ERROR (s1\<lparr>msg := Some ''Block size too large''\<rparr>) st2
           else if dec_size st2 > BUFFER_BLOCK_SIZE st2
           then Returns Z_VERSION_ERROR
                  (s1\<lparr>msg := Some ''Corrupted compressed stream (illegal decompressed size)''\<rparr>) st2
           else if str_size st2 > BUFFER_BLOCK_SIZE st2
           then Returns Z_VERSION_ERROR
                  (s1\<lparr>msg := Some ''Corrupted compressed stream (illegal stream size)''\<rparr>) st2
           else if str_size st2 = 0 \<and> dec_size st2 = 0
           then Returns Z_STREAM_END s1 st2
           else if avail_in s1 \<ge> str_size st2
           then Goes (inSeek s1 (str_size st2), st2,
                      (if is_null (in_win s1) then None
                       else Some (cells (in_win s1) (str_size st2))))
           else Goes (s1, st2\<lparr>inBuffOffs := 0\<rparr>, None)))"

text \<open>Lines 564 to 586: the block is staged in \<^verbatim>\<open>inBuff\<close> when \<^verbatim>\<open>in == NULL\<close>.\<close>

definition process_input ::
  "zfast_stream \<Rightarrow> internal_state \<Rightarrow> byte list option \<Rightarrow> int
     \<Rightarrow> zfast_stream \<times> internal_state \<times> byte list option" where
  "process_input s st inp flush =
     (case inp of
        Some xs \<Rightarrow> (s, st, Some xs)
      | None \<Rightarrow>
          (case
             (if inBuffOffs st < str_size st then
                (let size = (if str_size st - inBuffOffs st > avail_in s then avail_in s
                             else str_size st - inBuffOffs st)
                 in if size > 0
                    then (inSeek s size,
                          st\<lparr>inBuff := memcpy_at (inBuff st) (inBuffOffs st) (cells (in_win s) size),
                             inBuffOffs := inBuffOffs st + size\<rparr>)
                    else (s, st))
              else (s, st))
           of (s1, st1) \<Rightarrow>
             if inBuffOffs st1 = str_size st1
             then (s1, st1, Some (take (str_size st1) (inBuff st1)))
             else if flush \<noteq> Z_NO_FLUSH
             then (s1, st1\<lparr>str_size := inBuffOffs st1\<rparr>, Some (take (inBuffOffs st1) (inBuff st1)))
             else (s1, st1, None)))"

text \<open>
  Lines 600 to 641: a complete block is decompressed. The block primitive
  \<^verbatim>\<open>fastlz_decompress(in, in_size, out, out_size)\<close> is the parameter \<open>dcmp\<close>: from the
  input block and \<^verbatim>\<open>maxout\<close> to the bytes it stores at \<^verbatim>\<open>out\<close> (never more than
  \<^verbatim>\<open>maxout\<close>) and its return value. The code moves \<^verbatim>\<open>next_out\<close> before it writes through
  the old pointer; here the cells are written and then passed. \<^verbatim>\<open>done\<close> and \<^verbatim>\<open>dec_size\<close>
  are compared as numbers.
\<close>

definition decompress_block ::
  "(byte list \<Rightarrow> nat \<Rightarrow> byte list \<times> nat) \<Rightarrow> zfast_stream \<Rightarrow> internal_state \<Rightarrow> byte list
     \<Rightarrow> (zfast_stream \<times> internal_state) flow" where
  "decompress_block dcmp s st inp =
     (let in_size = str_size st;
          out_size = dec_size st;
          direct = (avail_out s \<ge> dec_size st);
          st1 = st\<lparr>outBuffOffs := (if direct then dec_size st else 0), str_size := 0\<rparr>
      in
        (case
           (if block_type st = BLOCK_TYPE_COMPRESSED
            then Some (case dcmp inp out_size of (bs, n) \<Rightarrow> (take out_size bs, n))
            else if block_type st = BLOCK_TYPE_RAW
            then Some (if out_size \<ge> in_size then (inp, in_size) else ([], 0))
            else None)
         of
           None \<Rightarrow> Fails Assert_Failed
         | Some (bytes, done) \<Rightarrow>
             (let s2 = (if direct then outSeek (memcpy_out s bytes) (dec_size st) else s);
                  st2 = (if direct then st1
                         else st1\<lparr>outBuff := memcpy_at (outBuff st1) 0 bytes\<rparr>)
              in if done \<noteq> dec_size st
                 then Returns Z_STREAM_ERROR
                        (s2\<lparr>msg := Some ''Unable to decompress block stream''\<rparr>) st2
                 else Goes (s2, st2))))"

text \<open>Lines 643 to 676: a complete block is compressed.\<close>

definition compress_block ::
  "(int \<Rightarrow> byte list \<Rightarrow> byte list) \<Rightarrow> zfast_stream \<Rightarrow> internal_state \<Rightarrow> byte list \<Rightarrow> int
     \<Rightarrow> (zfast_stream \<times> internal_state) flow" where
  "compress_block cmp s st inp flush_now =
     (let in_size = str_size st;
          estimated_dec_size =
            (in_size + in_size div EXPANSION_RATIO + EXPANSION_SECURITY) mod 2 ^ 32
      in
        if avail_out s \<ge> estimated_dec_size then
          (case fastlz_compress_hdr cmp inp estimated_dec_size (BLOCK_SIZE st)
                  (zlibLevelToFastlz (level st)) flush_now
           of
             Inl f \<Rightarrow> Fails f
           | Inr bytes \<Rightarrow>
               Goes (outSeek (memcpy_out s bytes) (length bytes),
                     st\<lparr>outBuffOffs := dec_size st, str_size := 0\<rparr>))
        else
          (case fastlz_compress_hdr cmp inp (BUFFER_BLOCK_SIZE st) (BLOCK_SIZE st)
                  (zlibLevelToFastlz (level st)) flush_now
           of
             Inl f \<Rightarrow> Fails f
           | Inr bytes \<Rightarrow>
               Goes (s,
                     st\<lparr>outBuff := memcpy_at (outBuff st) 0 bytes, dec_size := length bytes,
                        outBuffOffs := 0, str_size := 0\<rparr>)))"

text \<open>Lines 589 to 677, entered when \<^verbatim>\<open>in != NULL\<close>.\<close>

definition process_block ::
  "(int \<Rightarrow> byte list \<Rightarrow> byte list) \<Rightarrow> (byte list \<Rightarrow> nat \<Rightarrow> byte list \<times> nat)
     \<Rightarrow> zfast_stream \<Rightarrow> internal_state \<Rightarrow> byte list \<Rightarrow> int
     \<Rightarrow> (zfast_stream \<times> internal_state) flow" where
  "process_block cmp dcmp s st inp flush =
     (let flush_now = (if flush = Z_FINISH \<and> \<not> ZFAST_INPUT_IS_EMPTY s then Z_NO_FLUSH else flush)
      in if ZFAST_IS_DECOMPRESSING st then decompress_block dcmp s st inp
         else compress_block cmp s st inp flush_now)"

text \<open>\<^verbatim>\<open>fastlzlibProcess\<close>. The result is the fault, or the returned status with the stream
  as the call leaves it.\<close>

definition fastlzlibProcess ::
  "(int \<Rightarrow> byte list \<Rightarrow> byte list) \<Rightarrow> (byte list \<Rightarrow> nat \<Rightarrow> byte list \<times> nat)
     \<Rightarrow> zfast_stream \<Rightarrow> int \<Rightarrow> bool \<Rightarrow> fault + int \<times> zfast_stream" where
  "fastlzlibProcess cmp dcmp s flush may_buffer =
     (if is_null (in_win s) \<and> \<not> ZFAST_INPUT_IS_EMPTY s
      then Inr (Z_STREAM_ERROR, s\<lparr>msg := Some ''Invalid input''\<rparr>)
      else if is_null (out_win s) \<and> \<not> ZFAST_OUTPUT_IS_FULL s
      then Inr (Z_STREAM_ERROR, s\<lparr>msg := Some ''Invalid output''\<rparr>)
      else
        (case state s of
           None \<Rightarrow> Inl Null_Deref
         | Some st \<Rightarrow>
             if ZFAST_HAS_BUFFERED_OUTPUT st
             then (case process_drain s st of (s', st') \<Rightarrow> Inr (Z_OK, s'\<lparr>state := Some st'\<rparr>))
             else
               (case (if str_size st = 0 then process_header s st flush may_buffer
                      else Goes (s, st, None))
                of
                  Fails f \<Rightarrow> Inl f
                | Returns r s' st' \<Rightarrow> Inr (r, s'\<lparr>state := Some st'\<rparr>)
                | Goes (s1, st1, in1) \<Rightarrow>
                    (case process_input s1 st1 in1 flush of
                       (s2, st2, in2) \<Rightarrow>
                         (case (case in2 of
                                  None \<Rightarrow> Goes (s2, st2)
                                | Some xs \<Rightarrow> process_block cmp dcmp s2 st2 xs flush)
                          of
                            Fails f \<Rightarrow> Inl f
                          | Returns r s' st' \<Rightarrow> Inr (r, s'\<lparr>state := Some st'\<rparr>)
                          | Goes (s3, st3) \<Rightarrow>
                              Inr (if flush = Z_FINISH \<and> ZFAST_INPUT_IS_EMPTY s3
                                      \<and> \<not> ZFAST_HAS_BUFFERED_OUTPUT st3
                                   then Z_STREAM_END else Z_OK,
                                   s3\<lparr>state := Some st3\<rparr>))))))"

subsection \<open>The public operations\<close>

definition fastlzlibDecompress2 ::
  "(int \<Rightarrow> byte list \<Rightarrow> byte list) \<Rightarrow> (byte list \<Rightarrow> nat \<Rightarrow> byte list \<times> nat)
     \<Rightarrow> zfast_stream \<Rightarrow> bool \<Rightarrow> fault + int \<times> zfast_stream" where
  "fastlzlibDecompress2 cmp dcmp s may_buffer =
     (case state s of
        None \<Rightarrow> Inl Null_Deref
      | Some st \<Rightarrow>
          if ZFAST_IS_DECOMPRESSING st then fastlzlibProcess cmp dcmp s Z_NO_FLUSH may_buffer
          else Inr (Z_STREAM_ERROR,
                    s\<lparr>msg := Some ''Decompressing function used with a compressing stream''\<rparr>))"

definition fastlzlibDecompress ::
  "(int \<Rightarrow> byte list \<Rightarrow> byte list) \<Rightarrow> (byte list \<Rightarrow> nat \<Rightarrow> byte list \<times> nat)
     \<Rightarrow> zfast_stream \<Rightarrow> fault + int \<times> zfast_stream" where
  "fastlzlibDecompress cmp dcmp s = fastlzlibDecompress2 cmp dcmp s True"

definition fastlzlibCompress2 ::
  "(int \<Rightarrow> byte list \<Rightarrow> byte list) \<Rightarrow> (byte list \<Rightarrow> nat \<Rightarrow> byte list \<times> nat)
     \<Rightarrow> zfast_stream \<Rightarrow> int \<Rightarrow> bool \<Rightarrow> fault + int \<times> zfast_stream" where
  "fastlzlibCompress2 cmp dcmp s flush may_buffer =
     (case state s of
        None \<Rightarrow> Inl Null_Deref
      | Some st \<Rightarrow>
          if ZFAST_IS_COMPRESSING st then fastlzlibProcess cmp dcmp s flush may_buffer
          else Inr (Z_STREAM_ERROR,
                    s\<lparr>msg := Some ''Compressing function used with a decompressing stream''\<rparr>))"

definition fastlzlibCompress ::
  "(int \<Rightarrow> byte list \<Rightarrow> byte list) \<Rightarrow> (byte list \<Rightarrow> nat \<Rightarrow> byte list \<times> nat)
     \<Rightarrow> zfast_stream \<Rightarrow> int \<Rightarrow> fault + int \<times> zfast_stream" where
  "fastlzlibCompress cmp dcmp s flush = fastlzlibCompress2 cmp dcmp s flush True"

text \<open>
  \<^verbatim>\<open>fastlzlibDecompressSync\<close>, first its loop (lines 750 to 767):
  \<^verbatim>\<open>for( ; avail_in >= HEADER_SIZE ; inHdrOffs++, inSeek(s, 1))\<close>. The body reads
  \<^verbatim>\<open>next_in[0..6]\<close>, which faults when \<^verbatim>\<open>next_in\<close> is \<^verbatim>\<open>NULL\<close>.
\<close>

function sync_loop ::
  "zfast_stream \<Rightarrow> internal_state \<Rightarrow> fault + int \<times> zfast_stream \<times> internal_state" where
  "sync_loop s st =
     (if avail_in s \<ge> HEADER_SIZE then
        (case in_win s of
           Null n \<Rightarrow> Inl Null_Deref
         | Win inp \<Rightarrow>
             if inp ! 0 = BLOCK_MAGIC ! 0 \<and> inp ! 1 = BLOCK_MAGIC ! 1 \<and> inp ! 2 = BLOCK_MAGIC ! 2
                \<and> inp ! 3 = BLOCK_MAGIC ! 3 \<and> inp ! 4 = BLOCK_MAGIC ! 4 \<and> inp ! 5 = BLOCK_MAGIC ! 5
                \<and> inp ! 6 = BLOCK_MAGIC ! 6
             then
               (if fastlzlibGetStreamBlockSize inp (int HEADER_SIZE) \<noteq> 0
                then Inr (Z_OK, s, st)
                else sync_loop (inSeek s 1) (st\<lparr>inHdrOffs := inHdrOffs st + 1\<rparr>))
             else sync_loop (inSeek s 1) (st\<lparr>inHdrOffs := inHdrOffs st + 1\<rparr>))
      else Inr (Z_DATA_ERROR, s\<lparr>msg := Some ''No flush point found''\<rparr>, st))"
  by pat_completeness auto
termination
  by (relation "measure (\<lambda>(s, st). avail_in s)")
     (auto simp: avail_in_def inSeek_def HEADER_SIZE_def)

declare sync_loop.simps [simp del]

definition fastlzlibDecompressSync :: "zfast_stream \<Rightarrow> fault + int \<times> zfast_stream" where
  "fastlzlibDecompressSync s =
     (case state s of
        None \<Rightarrow> Inl Null_Deref
      | Some st \<Rightarrow>
          if ZFAST_IS_DECOMPRESSING st then
            (if ZFAST_HAS_BUFFERED_OUTPUT st then Inr (Z_OK, s)
             else if avail_in s < HEADER_SIZE
             then Inr (Z_BUF_ERROR, s\<lparr>msg := Some ''Need more data on input''\<rparr>)
             else
               (case sync_loop s (if inHdrOffs st \<noteq> 0 then st\<lparr>inHdrOffs := 0\<rparr> else st) of
                  Inl f \<Rightarrow> Inl f
                | Inr (r, s', st') \<Rightarrow> Inr (r, s'\<lparr>state := Some st'\<rparr>)))
          else Inr (Z_STREAM_ERROR,
                    s\<lparr>msg := Some ''Decompressing function used with a compressing stream''\<rparr>))"

subsection \<open>Initialisation and reset\<close>

text \<open>\<^verbatim>\<open>fastlzlibReset\<close>, on the stream and the state it points to.\<close>

definition fastlzlibReset :: "zfast_stream \<Rightarrow> internal_state \<Rightarrow> zfast_stream \<times> internal_state" where
  "fastlzlibReset s st =
     (s\<lparr>msg := None\<rparr>,
      st\<lparr>inHdrOffs := 0, block_type := 0, str_size := 0, dec_size := 0,
         inBuffOffs := 0, outBuffOffs := 0\<rparr>)"

definition fastlzlibCompressReset :: "zfast_stream option \<Rightarrow> fault + int \<times> zfast_stream option" where
  "fastlzlibCompressReset sp =
     (case sp of
        None \<Rightarrow> Inr (Z_STREAM_ERROR, None)
      | Some s \<Rightarrow>
          (case state s of
             None \<Rightarrow> Inl Null_Deref
           | Some st \<Rightarrow>
               (case fastlzlibReset s st of (s', st') \<Rightarrow> Inr (Z_OK, Some (s'\<lparr>state := Some st'\<rparr>)))))"

definition fastlzlibDecompressReset :: "zfast_stream option \<Rightarrow> fault + int \<times> zfast_stream option" where
  "fastlzlibDecompressReset sp = fastlzlibCompressReset sp"

text \<open>
  \<^verbatim>\<open>sizeof(zfast_stream_internal)\<close> with 4-byte \<^verbatim>\<open>int\<close> and 8-byte pointers: \<^verbatim>\<open>magic\<close> at
  offset 0, \<^verbatim>\<open>level\<close> at 8, \<^verbatim>\<open>inHdr\<close> at 12.
\<close>

definition SIZEOF_STATE :: nat where "SIZEOF_STATE = 80"

text \<open>
  \<^verbatim>\<open>fastlzlibInit\<close>. The allocator (\<^verbatim>\<open>s->zalloc\<close>, or \<^verbatim>\<open>malloc\<close>) is the parameter \<open>zalloc\<close>:
  from \<^verbatim>\<open>items\<close> and \<^verbatim>\<open>size\<close> to the content of the fresh block, or \<open>None\<close> for \<^verbatim>\<open>NULL\<close>. The
  stream pointer \<^verbatim>\<open>s\<close> is \<open>None\<close> when \<^verbatim>\<open>NULL\<close>. The members that the function does not
  write (\<^verbatim>\<open>level\<close>, \<^verbatim>\<open>inHdr\<close>) hold what the fresh block held. The state is not tested
  against \<^verbatim>\<open>NULL\<close> before \<^verbatim>\<open>strcpy\<close> writes to it. \<^verbatim>\<open>(uInt) block_size\<close> is the argument
  modulo \<open>2 ^ 32\<close>.
\<close>

definition fastlzlibInit ::
  "(nat \<Rightarrow> nat \<Rightarrow> byte list option) \<Rightarrow> zfast_stream option \<Rightarrow> int
     \<Rightarrow> fault + int \<times> zfast_stream option" where
  "fastlzlibInit zalloc sp blk_size =
     (case sp of
        None \<Rightarrow> Inr (Z_STREAM_ERROR, None)
      | Some s \<Rightarrow>
          (case zalloc SIZEOF_STATE 1 of
             None \<Rightarrow> Inl Null_Deref
           | Some m \<Rightarrow>
               (let st0 = \<lparr>level = sint (READ_32 m 8), inHdr = take HEADER_SIZE (drop 12 m),
                           inHdrOffs = 0, block_size = nat (blk_size mod 2 ^ 32), block_type = 0,
                           str_size = 0, dec_size = 0, inBuff = [], outBuff = [],
                           inBuffOffs = 0, outBuffOffs = 0\<rparr>;
                    ib = zalloc (BUFFER_BLOCK_SIZE st0) 1;
                    ob = zalloc (BUFFER_BLOCK_SIZE st0) 1
                in case (ib, ob) of
                     (Some i, Some ob') \<Rightarrow>
                       (case fastlzlibReset s (st0\<lparr>inBuff := i, outBuff := ob'\<rparr>) of
                          (s', st') \<Rightarrow> Inr (Z_OK, Some (s'\<lparr>state := Some st'\<rparr>)))
                   | _ \<Rightarrow> Inr (Z_MEM_ERROR, Some (s\<lparr>state := None\<rparr>)))))"

definition fastlzlibCompressInit2 ::
  "(nat \<Rightarrow> nat \<Rightarrow> byte list option) \<Rightarrow> zfast_stream option \<Rightarrow> int \<Rightarrow> int
     \<Rightarrow> fault + int \<times> zfast_stream option" where
  "fastlzlibCompressInit2 zalloc sp lvl blk_size =
     (case fastlzlibInit zalloc sp blk_size of
        Inl f \<Rightarrow> Inl f
      | Inr (success, sp') \<Rightarrow>
          if success = Z_OK then
            (case sp' of
               None \<Rightarrow> Inl Null_Deref
             | Some s' \<Rightarrow>
                 (case state s' of
                    None \<Rightarrow> Inl Null_Deref
                  | Some st \<Rightarrow>
                      Inr (success,
                           Some (s'\<lparr>state := Some (st\<lparr>level :=
                             (if lvl < Z_NO_COMPRESSION \<or> lvl > Z_BEST_COMPRESSION
                              then Z_BEST_COMPRESSION else lvl)\<rparr>)\<rparr>))))
          else Inr (success, sp'))"

definition fastlzlibCompressInit ::
  "(nat \<Rightarrow> nat \<Rightarrow> byte list option) \<Rightarrow> zfast_stream option \<Rightarrow> int
     \<Rightarrow> fault + int \<times> zfast_stream option" where
  "fastlzlibCompressInit zalloc sp lvl = fastlzlibCompressInit2 zalloc sp lvl DEFAULT_BLOCK_SIZE"

definition fastlzlibDecompressInit2 ::
  "(nat \<Rightarrow> nat \<Rightarrow> byte list option) \<Rightarrow> zfast_stream option \<Rightarrow> int
     \<Rightarrow> fault + int \<times> zfast_stream option" where
  "fastlzlibDecompressInit2 zalloc sp blk_size =
     (case fastlzlibInit zalloc sp blk_size of
        Inl f \<Rightarrow> Inl f
      | Inr (success, sp') \<Rightarrow>
          if success = Z_OK then
            (case sp' of
               None \<Rightarrow> Inl Null_Deref
             | Some s' \<Rightarrow>
                 (case state s' of
                    None \<Rightarrow> Inl Null_Deref
                  | Some st \<Rightarrow>
                      Inr (success, Some (s'\<lparr>state := Some (st\<lparr>level := ZFAST_LEVEL_DECOMPRESS\<rparr>)\<rparr>))))
          else Inr (success, sp'))"

definition fastlzlibDecompressInit ::
  "(nat \<Rightarrow> nat \<Rightarrow> byte list option) \<Rightarrow> zfast_stream option
     \<Rightarrow> fault + int \<times> zfast_stream option" where
  "fastlzlibDecompressInit zalloc sp = fastlzlibDecompressInit2 zalloc sp DEFAULT_BLOCK_SIZE"

subsection \<open>Concrete streams for evaluation\<close>

text \<open>An allocator that always succeeds and hands out zeroed blocks, a zeroed stream
  descriptor with empty windows, and the projections of a call's result.\<close>

definition zalloc_zero :: "nat \<Rightarrow> nat \<Rightarrow> byte list option" where
  "zalloc_zero items sz = Some (replicate (items * sz) 0)"

definition fresh_stream :: zfast_stream where
  "fresh_stream = \<lparr>in_win = Win [], total_in = 0, out_win = Win [], out_data = [],
                    total_out = 0, msg = None, state = None\<rparr>"

fun opened :: "fault + int \<times> zfast_stream option \<Rightarrow> zfast_stream" where
  "opened (Inr (r, Some s)) = s"
| "opened other = fresh_stream"

fun status_of :: "fault + int \<times> zfast_stream \<Rightarrow> int option" where
  "status_of (Inr (r, s)) = Some r"
| "status_of (Inl f) = None"

fun stream_of :: "fault + int \<times> zfast_stream \<Rightarrow> zfast_stream" where
  "stream_of (Inr (r, s)) = s"
| "stream_of (Inl f) = fresh_stream"

text \<open>A stream with \<open>xs\<close> as its input window and \<open>room\<close> as its output window.\<close>

definition feed :: "zfast_stream \<Rightarrow> byte list \<Rightarrow> byte list \<Rightarrow> zfast_stream" where
  "feed s xs room = s\<lparr>in_win := Win xs, out_win := Win room\<rparr>"

text \<open>Block primitives that store the block as it is: lossless, and never longer than
  the input.\<close>

definition store_cmp :: "int \<Rightarrow> byte list \<Rightarrow> byte list" where
  "store_cmp lvl xs = xs"

definition store_dcmp :: "byte list \<Rightarrow> nat \<Rightarrow> byte list \<times> nat" where
  "store_dcmp xs maxout = (if length xs \<le> maxout then (xs, length xs) else ([], 0))"

text \<open>Streams as the initialisation functions leave them, with the allocator above, and
  what a call of an initialisation function returned and stored.\<close>

definition compressor :: "int \<Rightarrow> zfast_stream" where
  "compressor bs =
     opened (fastlzlibCompressInit2 zalloc_zero (Some fresh_stream) Z_BEST_COMPRESSION bs)"

definition decompressor :: "int \<Rightarrow> zfast_stream" where
  "decompressor bs = opened (fastlzlibDecompressInit2 zalloc_zero (Some fresh_stream) bs)"

fun init_status :: "fault + int \<times> zfast_stream option \<Rightarrow> int option" where
  "init_status (Inr (r, s)) = Some r"
| "init_status (Inl f) = None"

definition stored_block_size :: "fault + int \<times> zfast_stream option \<Rightarrow> nat option" where
  "stored_block_size r = map_option block_size (state (opened r))"

definition hello :: "byte list" where
  "hello = [0x68, 0x65, 0x6C, 0x6C, 0x6F]"

text \<open>Whether a stream has buffered output that is not delivered yet, and a decompressing
  stream in that condition: a RAW block of five bytes was decompressed with no room at
  \<^verbatim>\<open>next_out\<close>, so the five bytes wait in \<^verbatim>\<open>outBuff\<close>.\<close>

definition pending :: "zfast_stream \<Rightarrow> bool" where
  "pending s = (case state s of None \<Rightarrow> False | Some st \<Rightarrow> ZFAST_HAS_BUFFERED_OUTPUT st)"

definition pending_stream :: zfast_stream where
  "pending_stream = stream_of (fastlzlibDecompress store_cmp store_dcmp
      (feed (decompressor 32768) (fastlz_write_header BLOCK_TYPE_RAW 32768 5 5 @ hello) []))"

definition pending_state :: internal_state where
  "pending_state = \<lparr>level = - 2, inHdr = replicate 20 0, inHdrOffs = 0, block_size = 32768,
        block_type = 192, str_size = 0, dec_size = 5,
        inBuff = replicate 36084 0,
        outBuff = hello @ replicate 36079 0,
        inBuffOffs = 0, outBuffOffs = 0\<rparr>"

text \<open>A complete stream for the five bytes of \<open>hello\<close>: one RAW block and the end-of-stream
  marker. And the same block behind two bytes of garbage.\<close>

definition hello_stream :: "byte list" where
  "hello_stream = fastlz_write_header BLOCK_TYPE_RAW 32768 5 5 @ hello
                    @ fastlz_write_header BLOCK_TYPE_COMPRESSED 32768 0 0"

definition garbled :: "byte list" where
  "garbled = [0xAA, 0xBB] @ fastlz_write_header BLOCK_TYPE_RAW 32768 5 5 @ hello"


text \<open>The positions at which the scan of \<^verbatim>\<open>fastlzlibDecompressSync\<close> does stop: the seven
  leading bytes are the magic and the word at offset 12, the original length of the
  block, is not zero.\<close>

definition sync_stop :: "byte list \<Rightarrow> bool" where
  "sync_stop xs \<longleftrightarrow> take 7 xs = BLOCK_MAGIC \<and> READ_32 xs 12 \<noteq> 0"


subsection \<open>Runs of a stream and the wire format\<close>

text \<open>
  A caller drives a stream by a sequence of calls. Before each call it may append bytes
  to the input window (the bytes that are left stay where they are) and it sets the
  output window; \<open>offer\<close> does both.
\<close>

fun window_bytes :: "window \<Rightarrow> byte list" where
  "window_bytes (Null n) = []"
| "window_bytes (Win xs) = xs"

definition offer :: "zfast_stream \<Rightarrow> byte list \<Rightarrow> byte list \<Rightarrow> zfast_stream" where
  "offer s extra room = s\<lparr>in_win := Win (window_bytes (in_win s) @ extra), out_win := Win room\<rparr>"

text \<open>
  A run of \<^verbatim>\<open>fastlzlibCompress\<close>: each call comes with the bytes appended to the input, the
  output window and the flush mode. The run goes on while the calls return \<^verbatim>\<open>Z_OK\<close> and
  gives the last status and stream.
\<close>

fun compress_run ::
  "(int \<Rightarrow> byte list \<Rightarrow> byte list) \<Rightarrow> (byte list \<Rightarrow> nat \<Rightarrow> byte list \<times> nat)
     \<Rightarrow> zfast_stream \<Rightarrow> (byte list \<times> byte list \<times> int) list \<Rightarrow> fault + int \<times> zfast_stream" where
  "compress_run cmp dcmp s [] = Inr (Z_OK, s)"
| "compress_run cmp dcmp s ((extra, room, flush) # cs) =
     (case fastlzlibCompress cmp dcmp (offer s extra room) flush of
        Inl f \<Rightarrow> Inl f
      | Inr (r, s') \<Rightarrow> if r = Z_OK then compress_run cmp dcmp s' cs else Inr (r, s'))"

fun decompress_run ::
  "(int \<Rightarrow> byte list \<Rightarrow> byte list) \<Rightarrow> (byte list \<Rightarrow> nat \<Rightarrow> byte list \<times> nat)
     \<Rightarrow> zfast_stream \<Rightarrow> (byte list \<times> byte list) list \<Rightarrow> fault + int \<times> zfast_stream" where
  "decompress_run cmp dcmp s [] = Inr (Z_OK, s)"
| "decompress_run cmp dcmp s ((extra, room) # cs) =
     (case fastlzlibDecompress cmp dcmp (offer s extra room) of
        Inl f \<Rightarrow> Inl f
      | Inr (r, s') \<Rightarrow> if r = Z_OK then decompress_run cmp dcmp s' cs else Inr (r, s'))"

text \<open>
  The calls that hand over the input: they use \<^verbatim>\<open>Z_NO_FLUSH\<close> until one uses \<^verbatim>\<open>Z_FINISH\<close>
  (none of them has to); that call may still bring input, and all calls after it use
  \<^verbatim>\<open>Z_FINISH\<close> and bring none.
\<close>

fun finishing :: "(byte list \<times> byte list \<times> int) list \<Rightarrow> bool" where
  "finishing [] = True"
| "finishing ((extra, room, flush) # cs) =
     (if flush = Z_FINISH then list_all (\<lambda>(m, r, f). m = [] \<and> f = Z_FINISH) cs
      else flush = Z_NO_FLUSH \<and> finishing cs)"

text \<open>The wire format: the frame of one block, the end-of-stream marker, and a sequence of
  frames with or without the marker.\<close>

definition frame :: "(int \<Rightarrow> byte list \<Rightarrow> byte list) \<Rightarrow> int \<Rightarrow> nat \<Rightarrow> byte list \<Rightarrow> byte list" where
  "frame cmp l bs x =
     (if length x > MIN_BLOCK_SIZE
      then fastlz_write_header BLOCK_TYPE_COMPRESSED bs (length (cmp l x)) (length x) @ cmp l x
      else fastlz_write_header BLOCK_TYPE_RAW bs (length x) (length x) @ x)"

definition eof_marker :: "nat \<Rightarrow> byte list" where
  "eof_marker bs = fastlz_write_header BLOCK_TYPE_COMPRESSED bs 0 0"

definition wire ::
  "(int \<Rightarrow> byte list \<Rightarrow> byte list) \<Rightarrow> int \<Rightarrow> nat \<Rightarrow> byte list list \<Rightarrow> bool \<Rightarrow> byte list" where
  "wire cmp l bs blocks e =
     concat (map (frame cmp l bs) blocks) @ (if e then eof_marker bs else [])"

text \<open>
  What the round trip asks of the block primitives, for blocks of more than
  \<^verbatim>\<open>MIN_BLOCK_SIZE\<close> and at most \<open>bs\<close> bytes and both FastLZ levels: decompressing the
  compressed block with the length of the block as \<^verbatim>\<open>maxout\<close> stores the block and returns
  its length, and the compressed block is at most a tenth longer than the block (the room
  that \<^verbatim>\<open>fastlz_compress_hdr\<close> asserts).
\<close>

definition lossless ::
  "(int \<Rightarrow> byte list \<Rightarrow> byte list) \<Rightarrow> (byte list \<Rightarrow> nat \<Rightarrow> byte list \<times> nat) \<Rightarrow> nat \<Rightarrow> bool" where
  "lossless cmp dcmp bs \<longleftrightarrow>
     (\<forall>l x. (l = 1 \<or> l = 2) \<and> MIN_BLOCK_SIZE < length x \<and> length x \<le> bs
        \<longrightarrow> dcmp (cmp l x) (length x) = (x, length x))"

definition bounded_expansion :: "(int \<Rightarrow> byte list \<Rightarrow> byte list) \<Rightarrow> nat \<Rightarrow> bool" where
  "bounded_expansion cmp bs \<longleftrightarrow>
     (\<forall>l x. (l = 1 \<or> l = 2) \<and> MIN_BLOCK_SIZE < length x \<and> length x \<le> bs
        \<longrightarrow> length (cmp l x) \<le> length x + length x div EXPANSION_RATIO)"

text \<open>The bytes of \<^verbatim>\<open>outBuff\<close> that are still to be delivered, and the bytes of the block that
  is being staged in \<^verbatim>\<open>inBuff\<close>.\<close>

definition pending_out :: "internal_state \<Rightarrow> byte list" where
  "pending_out st =
     (if outBuffOffs st < dec_size st
      then take (dec_size st - outBuffOffs st) (drop (outBuffOffs st) (outBuff st)) else [])"

definition staged :: "internal_state \<Rightarrow> byte list" where
  "staged st = (if str_size st = 0 then [] else take (inBuffOffs st) (inBuff st))"

text \<open>
  The invariant of a compressing run. \<open>supplied\<close> is all input handed to the stream so
  far and \<open>e\<close> tells whether the end-of-stream marker has been written. The output
  delivered and pending is the wire form of a sequence of blocks; the blocks, the staged
  bytes and the bytes left in the input window make up the input supplied.
\<close>

definition comp_inv ::
  "(int \<Rightarrow> byte list \<Rightarrow> byte list) \<Rightarrow> nat \<Rightarrow> zfast_stream \<Rightarrow> byte list \<Rightarrow> bool \<Rightarrow> bool" where
  "comp_inv cmp bs s supplied e \<longleftrightarrow>
     (\<exists>st blocks.
        state s = Some st \<and> ZFAST_IS_COMPRESSING st \<and> block_size st = bs
        \<and> list_all (\<lambda>b. b \<noteq> [] \<and> length b \<le> bs) blocks
        \<and> out_data s @ pending_out st = wire cmp (zlibLevelToFastlz (level st)) bs blocks e
        \<and> concat blocks @ staged st @ window_bytes (in_win s) = supplied
        \<and> (if str_size st = 0 then True
            else str_size st = bs \<and> inBuffOffs st < bs \<and> inBuffOffs st \<le> length (inBuff st)
                 \<and> dec_size st = 0 \<and> outBuffOffs st = 0)
        \<and> (if ZFAST_HAS_BUFFERED_OUTPUT st then dec_size st \<le> length (outBuff st) else True)
        \<and> (if e then str_size st = 0 \<and> window_bytes (in_win s) = [] else True))"

text \<open>
  How far a compressing stream is from the end of its run once all input has been handed
  over: the bytes of buffered output still to be delivered, and, weighted so that a block
  that moves to the output buffer still brings the number down, the bytes left in the
  input window and the block being staged. \<open>compress_calls\<close> bounds it by the length of
  the input.
\<close>

definition comp_measure :: "nat \<Rightarrow> zfast_stream \<Rightarrow> nat" where
  "comp_measure bs s =
     (case state s of
        None \<Rightarrow> 0
      | Some st \<Rightarrow>
          length (pending_out st)
          + (bs + bs div 10 + 41)
              * (length (window_bytes (in_win s)) + (if str_size st = 0 then 0 else 1)))"

definition compress_calls :: "nat \<Rightarrow> nat \<Rightarrow> nat" where
  "compress_calls bs n = 22 * n + 21 + (bs + bs div 10 + 41) * (n + 1)"

text \<open>The same for a decompressing stream that is to deliver \<open>n\<close> bytes: the bytes not
  delivered yet and the bytes left in the input window.\<close>

definition decomp_measure :: "nat \<Rightarrow> zfast_stream \<Rightarrow> nat" where
  "decomp_measure n s = (n - length (out_data s)) + length (window_bytes (in_win s))"

definition decompress_calls :: "nat \<Rightarrow> nat" where
  "decompress_calls n = 23 * n + 20"

text \<open>
  What one decompressing call on the stream \<open>s\<close>, with the input window \<open>w\<close> and the
  output window \<open>room\<close>, does to the cursors when it leaves the stream \<open>s'\<close>: the output
  does not shrink and the input window does not grow; with buffered output pending and
  room for output, output is delivered; with none pending and input at hand, input is
  consumed.
\<close>

definition dec_progress :: "zfast_stream \<Rightarrow> byte list \<Rightarrow> byte list \<Rightarrow> zfast_stream \<Rightarrow> bool" where
  "dec_progress s w room s' \<longleftrightarrow>
     length (out_data s) \<le> length (out_data s')
     \<and> length (window_bytes (in_win s')) \<le> length w
     \<and> (pending s \<longrightarrow> room \<noteq> [] \<longrightarrow> length (out_data s) < length (out_data s'))
     \<and> (\<not> pending s \<longrightarrow> w \<noteq> [] \<longrightarrow> length (window_bytes (in_win s')) < length w)"

text \<open>A compressing stream with nothing left to do: no output is buffered, no block is
  being staged, and the input window is empty.\<close>

definition comp_final :: "zfast_stream \<Rightarrow> bool" where
  "comp_final s \<longleftrightarrow>
     (\<exists>st. state s = Some st \<and> \<not> ZFAST_HAS_BUFFERED_OUTPUT st \<and> str_size st = 0)
     \<and> window_bytes (in_win s) = []"

text \<open>The payload and the type of the frame of a block, as \<^verbatim>\<open>fastlz_compress_hdr\<close> chooses
  them.\<close>

definition block_payload :: "(int \<Rightarrow> byte list \<Rightarrow> byte list) \<Rightarrow> int \<Rightarrow> byte list \<Rightarrow> byte list" where
  "block_payload cmp l x = (if length x > MIN_BLOCK_SIZE then cmp l x else x)"

definition block_kind :: "byte list \<Rightarrow> nat" where
  "block_kind x = (if length x > MIN_BLOCK_SIZE then BLOCK_TYPE_COMPRESSED else BLOCK_TYPE_RAW)"

text \<open>
  The invariant of a decompressing run that reads the wire form of \<open>blocks\<close>, with the
  end-of-stream marker when \<open>e\<close> holds. \<open>future\<close> is the part of the stream that has not
  been handed to the decoder yet. The output delivered and pending is made of the blocks
  decoded so far. Between blocks, the header bytes staged in \<^verbatim>\<open>inHdr\<close>, the input window
  and the future input are the wire form of the blocks that remain; inside a block, the
  payload bytes staged in \<^verbatim>\<open>inBuff\<close> take the place of the header bytes.
\<close>

definition decomp_inv ::
  "(int \<Rightarrow> byte list \<Rightarrow> byte list) \<Rightarrow> int \<Rightarrow> nat \<Rightarrow> nat \<Rightarrow> zfast_stream \<Rightarrow> byte list list \<Rightarrow> bool
     \<Rightarrow> byte list \<Rightarrow> bool" where
  "decomp_inv cmp l bs bd s blocks e future \<longleftrightarrow>
     (\<exists>st decoded rest.
        state s = Some st \<and> ZFAST_IS_DECOMPRESSING st \<and> block_size st = bd
        \<and> length (inHdr st) = HEADER_SIZE \<and> inHdrOffs st < HEADER_SIZE
        \<and> blocks = decoded @ rest
        \<and> out_data s @ pending_out st = concat decoded
        \<and> (if ZFAST_HAS_BUFFERED_OUTPUT st then dec_size st \<le> length (outBuff st) else True)
        \<and> (if str_size st = 0
            then take (inHdrOffs st) (inHdr st) @ window_bytes (in_win s) @ future
                   = wire cmp l bs rest e
            else inHdrOffs st = 0 \<and> \<not> ZFAST_HAS_BUFFERED_OUTPUT st
                 \<and> inBuffOffs st < str_size st \<and> inBuffOffs st \<le> length (inBuff st)
                 \<and> (\<exists>x rest'. rest = x # rest' \<and> block_type st = block_kind x
                       \<and> str_size st = length (block_payload cmp l x) \<and> dec_size st = length x
                       \<and> take (inBuffOffs st) (inBuff st) @ window_bytes (in_win s) @ future
                            = block_payload cmp l x @ wire cmp l bs rest' e)))"

text \<open>Block primitives that store every block twice. They are lossless, and a block of
  \<open>n\<close> bytes takes \<open>2 * n\<close> bytes.\<close>

definition dbl_cmp :: "int \<Rightarrow> byte list \<Rightarrow> byte list" where
  "dbl_cmp lvl xs = xs @ xs"

definition dbl_dcmp :: "byte list \<Rightarrow> nat \<Rightarrow> byte list \<times> nat" where
  "dbl_dcmp ys maxout = (take (length ys div 2) ys, length ys div 2)"

text \<open>
  A compressing run over 120 bytes with block size 100: three calls hand over 30, 40 and
  50 bytes, the third with \<^verbatim>\<open>Z_FINISH\<close>; \<open>finish_calls\<close> are the calls with \<^verbatim>\<open>Z_FINISH\<close>, no
  input and room for output that follow, \<open>output_calls\<close> the calls of the decompressor with
  no input and room for one byte. The first block has 100 bytes and is handed to the
  compressor, the second has 20 bytes and is stored; \<open>long_wire\<close> is the stream to produce.
\<close>

definition long_calls :: "(byte list \<times> byte list \<times> int) list" where
  "long_calls = [(replicate 30 7, replicate 50 0, Z_NO_FLUSH),
                 (replicate 40 9, [], Z_NO_FLUSH),
                 (replicate 50 11, replicate 50 0, Z_FINISH)]"

definition long_input :: "byte list" where
  "long_input = replicate 30 7 @ replicate 40 9 @ replicate 50 11"

definition finish_calls :: "nat \<Rightarrow> (byte list \<times> byte list \<times> int) list" where
  "finish_calls n = replicate n ([], replicate 200 0, Z_FINISH)"

definition output_calls :: "nat \<Rightarrow> (byte list \<times> byte list) list" where
  "output_calls n = replicate n ([], [0])"

definition long_wire :: "byte list" where
  "long_wire = fastlz_write_header BLOCK_TYPE_COMPRESSED 100 100 100 @ take 100 long_input
                 @ fastlz_write_header BLOCK_TYPE_RAW 100 20 20 @ drop 100 long_input
                 @ fastlz_write_header BLOCK_TYPE_COMPRESSED 100 0 0"

section \<open>Properties\<close>

subsection \<open>The header codec\<close>

lemma mask_255: "(255 :: 32 word) = mask 8"
  by (simp add: mask_eq_exp_minus_1)

lemma mask_65535: "(65535 :: 32 word) = mask 16"
  by (simp add: mask_eq_exp_minus_1)

lemma READ_32_WRITE_32:
  "length pre = a \<Longrightarrow> READ_32 (pre @ WRITE_32 n @ post) a = n"
  unfolding READ_32_def READ_16_def READ_8_def WRITE_32_def WRITE_16_def mask_255 mask_65535
  apply (simp add: nth_append)
  apply (rule bit_word_eqI)
  subgoal for k
    apply (cases "k < 8"; cases "k < 16"; cases "k < 24")
           apply (simp_all add: bit_simps)
      apply auto
    done
  done

lemma READ_8_WRITE_8:
  "length pre = a \<Longrightarrow> READ_8 (pre @ WRITE_8 n @ post) a = n AND 0xff"
  unfolding READ_8_def WRITE_8_def mask_255
  apply (simp add: nth_append)
  apply (rule bit_word_eqI)
  apply (auto simp: bit_simps)
  done

lemma length_WRITE_32: "length (WRITE_32 n) = 4"
  by (simp add: WRITE_32_def WRITE_16_def)

lemma length_write_header: "length (fastlz_write_header t b c orig) = HEADER_SIZE"
  by (simp add: fastlz_write_header_def BLOCK_MAGIC_def WRITE_8_def length_WRITE_32 HEADER_SIZE_def)

lemma unat_low_byte: "unat ((word_of_nat t :: 32 word) AND 0xff) = t mod 256"
proof -
  have "unat (take_bit 8 (word_of_nat t :: 32 word)) = take_bit 8 (take_bit 32 t)"
    by (simp add: unsigned_take_bit_eq unsigned_of_nat)
  moreover have "take_bit 8 (take_bit 32 t) = (take_bit 8 t :: nat)" by simp
  moreover have "(word_of_nat t :: 32 word) AND 0xff = take_bit 8 (word_of_nat t)"
    unfolding mask_255 by (simp add: take_bit_eq_mask)
  ultimately have "unat ((word_of_nat t :: 32 word) AND 0xff) = take_bit 8 t" by metis
  then show ?thesis by (simp only: take_bit_eq_mod) simp
qed

text \<open>Decoding an encoded header: the decoded block size is the original length, whatever
  block size was encoded.\<close>

lemma read_write_header:
  "fastlz_read_header (fastlz_write_header t b c orig @ rest)
     = (t mod 256, orig mod 2 ^ 32, c mod 2 ^ 32, orig mod 2 ^ 32)"
proof -
  have r8: "READ_32 (fastlz_write_header t b c orig @ rest) 8 = of_nat c"
    using READ_32_WRITE_32 [of "BLOCK_MAGIC @ WRITE_8 (of_nat t)" 8 "of_nat c"
        "WRITE_32 (of_nat orig) @ WRITE_32 (of_nat b) @ rest"]
    by (simp add: fastlz_write_header_def BLOCK_MAGIC_def WRITE_8_def)
  have r12: "READ_32 (fastlz_write_header t b c orig @ rest) 12 = of_nat orig"
    using READ_32_WRITE_32 [of "BLOCK_MAGIC @ WRITE_8 (of_nat t) @ WRITE_32 (of_nat c)" 12
        "of_nat orig" "WRITE_32 (of_nat b) @ rest"]
    by (simp add: fastlz_write_header_def BLOCK_MAGIC_def WRITE_8_def length_WRITE_32)
  have r7: "READ_8 (fastlz_write_header t b c orig @ rest) 7 = of_nat t AND 0xff"
    using READ_8_WRITE_8 [of "BLOCK_MAGIC" 7 "of_nat t"
        "WRITE_32 (of_nat c) @ WRITE_32 (of_nat orig) @ WRITE_32 (of_nat b) @ rest"]
    by (simp add: fastlz_write_header_def BLOCK_MAGIC_def)
  have mg: "take 7 (fastlz_write_header t b c orig @ rest) = BLOCK_MAGIC"
    by (simp add: fastlz_write_header_def BLOCK_MAGIC_def)
  show ?thesis
    unfolding fastlz_read_header_def mg r8 r12 r7 unat_low_byte by (simp add: unat_of_nat)
qed




subsection \<open>Stream sniffing\<close>

text \<open>What \<^verbatim>\<open>fastlzlibIsCompressedStream\<close> answers, case by case: the magic alone does not
  make the answer \<^verbatim>\<open>Z_OK\<close>, the word at offset 12 must be nonzero as well.\<close>

lemma is_compressed_stream_cases:
  "fastlzlibIsCompressedStream buf len =
     (if len < 20 then Z_BUF_ERROR
      else if take 7 buf \<noteq> BLOCK_MAGIC then Z_DATA_ERROR
      else if READ_32 buf 12 = 0 then Z_DATA_ERROR
      else Z_OK)"
  by (simp add: fastlzlibIsCompressedStream_def fastlzlibGetStreamBlockSize_def
      fastlz_read_header_def HEADER_SIZE_def unat_eq_0)

lemma eof_marker_bytes:
  "fastlz_write_header BLOCK_TYPE_COMPRESSED 32768 0 0 =
     [0x46, 0x61, 0x73, 0x74, 0x4C, 0x5A, 0, 0x0C, 0, 0, 0, 0, 0, 0, 0, 0, 0, 0x80, 0, 0]"
  by (simp add: fastlz_write_header_def BLOCK_MAGIC_def WRITE_8_def WRITE_32_def WRITE_16_def
      BLOCK_TYPE_COMPRESSED_def)

text \<open>
  C6. The claim gives \<^verbatim>\<open>Z_OK\<close> for every buffer that starts with a 20-byte header with the
  right magic. The end-of-stream marker that the encoder writes for block size 32768 is
  such a header, of length 20, and the function answers \<^verbatim>\<open>Z_DATA_ERROR\<close> for it: the block
  size it tests is read from offset 12, where the marker holds the original length 0.
\<close>

theorem is_compressed_stream_rejects_eof_marker:
  "take 7 (fastlz_write_header BLOCK_TYPE_COMPRESSED 32768 0 0) = BLOCK_MAGIC
   \<and> length (fastlz_write_header BLOCK_TYPE_COMPRESSED 32768 0 0) = 20
   \<and> fastlzlibIsCompressedStream (fastlz_write_header BLOCK_TYPE_COMPRESSED 32768 0 0) 20
       = Z_DATA_ERROR"
  using read_write_header [of BLOCK_TYPE_COMPRESSED 32768 0 0 "[]"]
  by (simp add: fastlzlibIsCompressedStream_def fastlzlibGetStreamBlockSize_def HEADER_SIZE_def
      length_write_header)
     (simp add: fastlz_write_header_def BLOCK_MAGIC_def)

subsection \<open>Unfolding the model\<close>

lemmas const_defs = EXPANSION_RATIO_def EXPANSION_SECURITY_def HEADER_SIZE_def MIN_BLOCK_SIZE_def
  DEFAULT_BLOCK_SIZE_def BLOCK_TYPE_RAW_def BLOCK_TYPE_COMPRESSED_def BLOCK_TYPE_BAD_MAGIC_def
  ZFAST_LEVEL_DECOMPRESS_def Z_OK_def Z_STREAM_END_def Z_STREAM_ERROR_def Z_DATA_ERROR_def
  Z_MEM_ERROR_def Z_BUF_ERROR_def Z_VERSION_ERROR_def Z_NO_FLUSH_def Z_FINISH_def
  Z_NO_COMPRESSION_def Z_BEST_SPEED_def Z_BEST_COMPRESSION_def SIZEOF_STATE_def ULONG_MOD_def

lemmas macro_defs = BLOCK_SIZE_def BUFFER_BLOCK_SIZE_def ZFAST_IS_COMPRESSING_def
  ZFAST_IS_DECOMPRESSING_def ZFAST_INPUT_IS_EMPTY_def ZFAST_OUTPUT_IS_FULL_def
  ZFAST_HAS_BUFFERED_OUTPUT_def avail_in_def avail_out_def

lemmas process_defs = fastlzlibProcess_def process_drain_def process_header_def
  decompress_header_def decompress_header_parse_def compress_header_def compress_header_apply_def
  process_input_def process_block_def decompress_block_def compress_block_def
  fastlz_compress_hdr_def zlibLevelToFastlz_def inSeek_def outSeek_def memcpy_out_def memcpy_at_def
  fastlzlibCompress_def fastlzlibCompress2_def fastlzlibDecompress_def fastlzlibDecompress2_def

lemma compressor_eq:
  "0 \<le> bs \<Longrightarrow> bs < 2 ^ 32 \<Longrightarrow> compressor bs =
    \<lparr>in_win = Win [], total_in = 0, out_win = Win [], out_data = [], total_out = 0, msg = None,
     state = Some \<lparr>level = 9, inHdr = replicate 20 0, inHdrOffs = 0, block_size = nat bs,
        block_type = 0, str_size = 0, dec_size = 0,
        inBuff = replicate ((nat bs + nat bs div 10 + 40) mod 2 ^ 32) 0,
        outBuff = replicate ((nat bs + nat bs div 10 + 40) mod 2 ^ 32) 0,
        inBuffOffs = 0, outBuffOffs = 0\<rparr>\<rparr>"
  by (simp add: compressor_def fastlzlibCompressInit2_def fastlzlibInit_def zalloc_zero_def
      fastlzlibReset_def fresh_stream_def Let_def const_defs macro_defs)

lemma decompressor_eq:
  "0 \<le> bs \<Longrightarrow> bs < 2 ^ 32 \<Longrightarrow> decompressor bs =
    \<lparr>in_win = Win [], total_in = 0, out_win = Win [], out_data = [], total_out = 0, msg = None,
     state = Some \<lparr>level = - 2, inHdr = replicate 20 0, inHdrOffs = 0, block_size = nat bs,
        block_type = 0, str_size = 0, dec_size = 0,
        inBuff = replicate ((nat bs + nat bs div 10 + 40) mod 2 ^ 32) 0,
        outBuff = replicate ((nat bs + nat bs div 10 + 40) mod 2 ^ 32) 0,
        inBuffOffs = 0, outBuffOffs = 0\<rparr>\<rparr>"
  by (simp add: decompressor_def fastlzlibDecompressInit2_def fastlzlibInit_def zalloc_zero_def
      fastlzlibReset_def fresh_stream_def Let_def const_defs macro_defs)

subsection \<open>Initialisation\<close>

lemma fastlzlibInit_OK:
  "fastlzlibInit zalloc sp bs = Inr (Z_OK, r) \<Longrightarrow>
     \<exists>s' st. r = Some s' \<and> state s' = Some st \<and> block_size st = nat (bs mod 2 ^ 32)
       \<and> str_size st = 0 \<and> dec_size st = 0 \<and> outBuffOffs st = 0 \<and> inHdrOffs st = 0
       \<and> inBuffOffs st = 0"
  by (auto simp: fastlzlibInit_def fastlzlibReset_def Let_def Z_OK_def Z_STREAM_ERROR_def
      Z_MEM_ERROR_def split: option.splits)

lemma fastlzlibInit_status:
  "init_status (fastlzlibInit zalloc sp bs) = Some Z_OK \<Longrightarrow>
     stored_block_size (fastlzlibInit zalloc sp bs) = Some (nat (bs mod 2 ^ 32))"
proof -
  assume a: "init_status (fastlzlibInit zalloc sp bs) = Some Z_OK"
  then obtain r where "fastlzlibInit zalloc sp bs = Inr (Z_OK, r)"
    by (cases "fastlzlibInit zalloc sp bs") auto
  with fastlzlibInit_OK [of zalloc sp bs r] show ?thesis
    by (auto simp: stored_block_size_def)
qed

lemma fastlzlibCompressInit2_status:
  "init_status (fastlzlibCompressInit2 zalloc sp lvl bs) = Some Z_OK \<Longrightarrow>
     stored_block_size (fastlzlibCompressInit2 zalloc sp lvl bs) = Some (nat (bs mod 2 ^ 32))"
proof -
  assume a: "init_status (fastlzlibCompressInit2 zalloc sp lvl bs) = Some Z_OK"
  then obtain r where r: "fastlzlibInit zalloc sp bs = Inr (Z_OK, r)"
    by (cases "fastlzlibInit zalloc sp bs")
       (auto simp: fastlzlibCompressInit2_def split: if_splits option.splits)
  with fastlzlibInit_OK [of zalloc sp bs r] show ?thesis
    by (auto simp: stored_block_size_def fastlzlibCompressInit2_def)
qed

lemma fastlzlibDecompressInit2_status:
  "init_status (fastlzlibDecompressInit2 zalloc sp bs) = Some Z_OK \<Longrightarrow>
     stored_block_size (fastlzlibDecompressInit2 zalloc sp bs) = Some (nat (bs mod 2 ^ 32))"
proof -
  assume a: "init_status (fastlzlibDecompressInit2 zalloc sp bs) = Some Z_OK"
  then obtain r where r: "fastlzlibInit zalloc sp bs = Inr (Z_OK, r)"
    by (cases "fastlzlibInit zalloc sp bs")
       (auto simp: fastlzlibDecompressInit2_def split: if_splits option.splits)
  with fastlzlibInit_OK [of zalloc sp bs r] show ?thesis
    by (auto simp: stored_block_size_def fastlzlibDecompressInit2_def)
qed

text \<open>
  C8, as the code has it. No initialisation function compares the block size with
  \<^verbatim>\<open>MIN_BLOCK_SIZE\<close>: after a successful \<^verbatim>\<open>fastlzlibCompressInit2\<close> or
  \<^verbatim>\<open>fastlzlibDecompressInit2\<close> the stored block size is the \<^verbatim>\<open>int\<close> argument converted
  to \<^verbatim>\<open>uInt\<close>, whatever it is, and after a successful \<^verbatim>\<open>fastlzlibCompressInit\<close> or
  \<^verbatim>\<open>fastlzlibDecompressInit\<close> it is the default 32768.
\<close>

theorem init_stores_block_size_unchecked:
  "(init_status (fastlzlibCompressInit2 zalloc sp lvl bs) = Some Z_OK \<longrightarrow>
      stored_block_size (fastlzlibCompressInit2 zalloc sp lvl bs) = Some (nat (bs mod 2 ^ 32)))
   \<and> (init_status (fastlzlibDecompressInit2 zalloc sp bs) = Some Z_OK \<longrightarrow>
      stored_block_size (fastlzlibDecompressInit2 zalloc sp bs) = Some (nat (bs mod 2 ^ 32)))
   \<and> (init_status (fastlzlibCompressInit zalloc sp lvl) = Some Z_OK \<longrightarrow>
      stored_block_size (fastlzlibCompressInit zalloc sp lvl) = Some 32768)
   \<and> (init_status (fastlzlibDecompressInit zalloc sp) = Some Z_OK \<longrightarrow>
      stored_block_size (fastlzlibDecompressInit zalloc sp) = Some 32768)"
  using fastlzlibCompressInit2_status [of zalloc sp lvl bs]
    fastlzlibDecompressInit2_status [of zalloc sp bs]
    fastlzlibCompressInit2_status [of zalloc sp lvl DEFAULT_BLOCK_SIZE]
    fastlzlibDecompressInit2_status [of zalloc sp DEFAULT_BLOCK_SIZE]
  by (simp add: fastlzlibCompressInit_def fastlzlibDecompressInit_def DEFAULT_BLOCK_SIZE_def)

lemma init_status_zalloc_zero:
  "init_status (fastlzlibCompressInit2 zalloc_zero (Some fresh_stream) lvl bs) = Some Z_OK"
  "init_status (fastlzlibDecompressInit2 zalloc_zero (Some fresh_stream) bs) = Some Z_OK"
  by (simp_all add: fastlzlibCompressInit2_def fastlzlibDecompressInit2_def fastlzlibInit_def
      zalloc_zero_def fastlzlibReset_def Let_def Z_OK_def)

theorem init_stores_block_size_unchecked_witness:
  "init_status (fastlzlibCompressInit2 zalloc_zero (Some fresh_stream) 5 100) = Some Z_OK
   \<and> stored_block_size (fastlzlibCompressInit2 zalloc_zero (Some fresh_stream) 5 100) = Some 100
   \<and> init_status (fastlzlibDecompressInit2 zalloc_zero (Some fresh_stream) 100) = Some Z_OK
   \<and> stored_block_size (fastlzlibDecompressInit2 zalloc_zero (Some fresh_stream) 100) = Some 100
   \<and> init_status (fastlzlibCompressInit zalloc_zero (Some fresh_stream) 5) = Some Z_OK
   \<and> stored_block_size (fastlzlibCompressInit zalloc_zero (Some fresh_stream) 5) = Some 32768
   \<and> init_status (fastlzlibDecompressInit zalloc_zero (Some fresh_stream)) = Some Z_OK
   \<and> stored_block_size (fastlzlibDecompressInit zalloc_zero (Some fresh_stream)) = Some 32768"
  using init_stores_block_size_unchecked [of zalloc_zero "Some fresh_stream" 5 100]
  by (simp add: init_status_zalloc_zero fastlzlibCompressInit_def fastlzlibDecompressInit_def)

text \<open>
  C8 as stated fails: \<^verbatim>\<open>fastlzlibCompressInit2\<close> with block size 10 succeeds and stores 10,
  which is below \<^verbatim>\<open>MIN_BLOCK_SIZE\<close>.
\<close>

theorem init_small_block_size_counterexample:
  "init_status (fastlzlibCompressInit2 zalloc_zero (Some fresh_stream) 9 10) = Some Z_OK
   \<and> stored_block_size (fastlzlibCompressInit2 zalloc_zero (Some fresh_stream) 9 10) = Some 10
   \<and> 10 < MIN_BLOCK_SIZE"
  by (simp add: stored_block_size_def fastlzlibCompressInit2_def fastlzlibInit_def
      zalloc_zero_def Let_def fastlzlibReset_def macro_defs const_defs)

subsection \<open>The empty stream\<close>

text \<open>Two calls, the first with \<^verbatim>\<open>Z_NO_FLUSH\<close> and the second with \<^verbatim>\<open>Z_FINISH\<close>, both with
  no input: the second call goes through \<^verbatim>\<open>fastlz_compress_hdr\<close> with an empty block and
  writes the end-of-stream marker.\<close>

lemma compress_empty_no_flush_then_finish:
  "status_of (fastlzlibCompress cmp dcmp (feed (compressor 32768) [] room) Z_NO_FLUSH) = Some Z_OK
   \<and> status_of (fastlzlibCompress cmp dcmp
         (feed (stream_of (fastlzlibCompress cmp dcmp (feed (compressor 32768) [] room) Z_NO_FLUSH))
            [] (replicate 100 0)) Z_FINISH)
       = Some Z_STREAM_END
   \<and> out_data (stream_of (fastlzlibCompress cmp dcmp
         (feed (stream_of (fastlzlibCompress cmp dcmp (feed (compressor 32768) [] room) Z_NO_FLUSH))
            [] (replicate 100 0)) Z_FINISH))
       = fastlz_write_header BLOCK_TYPE_COMPRESSED 32768 0 0"
  using length_write_header [of BLOCK_TYPE_COMPRESSED 32768 0 0]
  by (simp add: compressor_eq feed_def process_defs macro_defs const_defs Let_def)

text \<open>
  C2. On a stream fresh from \<^verbatim>\<open>fastlzlibCompressInit\<close> (level 9, block size 32768), with no
  input and any output window \<open>room\<close>, \<^verbatim>\<open>fastlzlibCompress\<close> with \<^verbatim>\<open>Z_FINISH\<close> returns
  \<^verbatim>\<open>Z_STREAM_END\<close> and has written nothing: the test for the end-of-stream marker in the
  process routine (\<^verbatim>\<open>str_size == 0 && dec_size == 0\<close>) returns before the block wrapper
  is reached. The claim has 20 bytes written. The second half of the claim holds:
  decompressing the 20-byte marker returns \<^verbatim>\<open>Z_STREAM_END\<close> with no output.
\<close>

theorem compress_empty_finish_writes_nothing:
  "status_of (fastlzlibCompress cmp dcmp (feed (compressor 32768) [] room) Z_FINISH)
     = Some Z_STREAM_END
   \<and> out_data (stream_of (fastlzlibCompress cmp dcmp (feed (compressor 32768) [] room) Z_FINISH))
     = []
   \<and> total_out (stream_of (fastlzlibCompress cmp dcmp (feed (compressor 32768) [] room) Z_FINISH))
     = 0
   \<and> status_of (fastlzlibDecompress cmp dcmp
         (feed (decompressor 32768) (fastlz_write_header BLOCK_TYPE_COMPRESSED 32768 0 0) room))
     = Some Z_STREAM_END
   \<and> out_data (stream_of (fastlzlibDecompress cmp dcmp
         (feed (decompressor 32768) (fastlz_write_header BLOCK_TYPE_COMPRESSED 32768 0 0) room)))
     = []"
  using read_write_header [of BLOCK_TYPE_COMPRESSED 32768 0 0 "[]"]
    length_write_header [of BLOCK_TYPE_COMPRESSED 32768 0 0]
  by (simp add: compressor_eq decompressor_eq feed_def process_defs macro_defs const_defs Let_def)

subsection \<open>RAW blocks\<close>

text \<open>When a RAW block is decompressed without error, the two sizes of its header are
  equal, or the decompressed size is 0 and the payload is dropped.\<close>

lemma decompress_block_raw_sizes:
  "block_type st = BLOCK_TYPE_RAW \<Longrightarrow> decompress_block dcmp s st inp = Goes x \<Longrightarrow>
     dec_size st = str_size st \<or> (dec_size st = 0 \<and> 0 < str_size st)"
  by (auto simp: decompress_block_def Let_def const_defs split: if_splits)

text \<open>
  C5. A decompressing stream (block size 32768) gets a RAW block whose header has
  \<^verbatim>\<open>str_size = 5\<close> and \<^verbatim>\<open>dec_size = 0\<close>, followed by the five payload bytes. The claim
  has \<^verbatim>\<open>Z_STREAM_ERROR\<close> for it. The call returns \<^verbatim>\<open>Z_OK\<close>, consumes the 25 bytes and
  writes nothing: \<^verbatim>\<open>done = 0\<close>, which marks the rejected copy, equals \<^verbatim>\<open>dec_size\<close>.
\<close>

theorem raw_block_zero_dec_size_accepted:
  "status_of (fastlzlibDecompress cmp dcmp
       (feed (decompressor 32768) (fastlz_write_header BLOCK_TYPE_RAW 32768 5 0 @ hello) room))
     = Some Z_OK
   \<and> out_data (stream_of (fastlzlibDecompress cmp dcmp
       (feed (decompressor 32768) (fastlz_write_header BLOCK_TYPE_RAW 32768 5 0 @ hello) room)))
     = []
   \<and> in_win (stream_of (fastlzlibDecompress cmp dcmp
       (feed (decompressor 32768) (fastlz_write_header BLOCK_TYPE_RAW 32768 5 0 @ hello) room)))
     = Win []
   \<and> total_in (stream_of (fastlzlibDecompress cmp dcmp
       (feed (decompressor 32768) (fastlz_write_header BLOCK_TYPE_RAW 32768 5 0 @ hello) room)))
     = 25"
  using read_write_header [of BLOCK_TYPE_RAW 32768 5 0 "[]"]
    length_write_header [of BLOCK_TYPE_RAW 32768 5 0]
  by (simp add: decompressor_eq feed_def process_defs macro_defs const_defs Let_def hello_def)

subsection \<open>Status codes of the process routine\<close>

lemma decompress_header_parse_no_buf_error:
  "decompress_header_parse s st True \<noteq> Returns Z_BUF_ERROR s' st'"
  by (simp add: decompress_header_parse_def Z_BUF_ERROR_def Z_OK_def split: prod.splits)

lemma decompress_header_no_buf_error:
  "decompress_header s st True \<noteq> Returns Z_BUF_ERROR s' st'"
  by (simp add: decompress_header_def decompress_header_parse_no_buf_error split: prod.splits)

lemma compress_header_no_buf_error:
  "compress_header s st flush True \<noteq> Returns Z_BUF_ERROR s' st'"
  by (simp add: compress_header_def compress_header_apply_def)

lemma process_header_no_buf_error:
  "process_header s st flush True \<noteq> Returns Z_BUF_ERROR s' st'"
proof -
  have h: "(if ZFAST_IS_DECOMPRESSING st then decompress_header s st True
            else compress_header s st flush True) \<noteq> Returns Z_BUF_ERROR a b" for a b
    by (simp add: decompress_header_no_buf_error compress_header_no_buf_error)
  show ?thesis
  proof (cases "if ZFAST_IS_DECOMPRESSING st then decompress_header s st True
            else compress_header s st flush True")
    case (Fails f)
    then show ?thesis by (simp add: process_header_def)
  next
    case (Returns r a b)
    with h [of a b] show ?thesis by (auto simp add: process_header_def)
  next
    case (Goes x)
    obtain s1 st1 b where x: "x = (s1, st1, b)" by (cases x)
    show ?thesis
      by (simp add: process_header_def Goes x Let_def Z_BUF_ERROR_def Z_DATA_ERROR_def
          Z_VERSION_ERROR_def Z_STREAM_END_def)
  qed
qed

lemma decompress_block_Returns:
  "decompress_block dcmp s st inp = Returns r a b \<Longrightarrow> r = Z_STREAM_ERROR"
  by (simp add: decompress_block_def Let_def split: option.splits prod.splits if_splits)

lemma compress_block_Returns:
  "compress_block cmp s st inp flush \<noteq> Returns r a b"
  by (simp add: compress_block_def Let_def split: sum.splits)

lemma process_block_no_buf_error:
  "process_block cmp dcmp s st inp flush \<noteq> Returns Z_BUF_ERROR s' st'"
  using decompress_block_Returns [of dcmp s st inp Z_BUF_ERROR s' st']
    compress_block_Returns [of cmp s st inp _ Z_BUF_ERROR s' st']
  by (auto simp: process_block_def Let_def Z_BUF_ERROR_def Z_STREAM_ERROR_def)

text \<open>The routine after its sanity checks, on a stream with a state and no buffered
  output.\<close>

lemma fastlzlibProcess_unbuffered:
  assumes "\<not> (is_null (in_win s) \<and> \<not> ZFAST_INPUT_IS_EMPTY s)"
    and "\<not> (is_null (out_win s) \<and> \<not> ZFAST_OUTPUT_IS_FULL s)"
    and "state s = Some st" and "\<not> ZFAST_HAS_BUFFERED_OUTPUT st"
  shows "fastlzlibProcess cmp dcmp s flush may_buffer =
    (case (if str_size st = 0 then process_header s st flush may_buffer else Goes (s, st, None)) of
       Fails f \<Rightarrow> Inl f
     | Returns r s' st' \<Rightarrow> Inr (r, s'\<lparr>state := Some st'\<rparr>)
     | Goes (s1, st1, in1) \<Rightarrow>
         (case process_input s1 st1 in1 flush of
            (s2, st2, in2) \<Rightarrow>
              (case (case in2 of
                       None \<Rightarrow> Goes (s2, st2)
                     | Some xs \<Rightarrow> process_block cmp dcmp s2 st2 xs flush)
               of
                 Fails f \<Rightarrow> Inl f
               | Returns r s' st' \<Rightarrow> Inr (r, s'\<lparr>state := Some st'\<rparr>)
               | Goes (s3, st3) \<Rightarrow>
                   Inr (if flush = Z_FINISH \<and> ZFAST_INPUT_IS_EMPTY s3
                           \<and> \<not> ZFAST_HAS_BUFFERED_OUTPUT st3
                        then Z_STREAM_END else Z_OK,
                        s3\<lparr>state := Some st3\<rparr>))))"
  using assms by (auto simp: fastlzlibProcess_def)

text \<open>
  C7. With \<^verbatim>\<open>may_buffer\<close> true the process routine never returns \<^verbatim>\<open>Z_BUF_ERROR\<close>, on any
  stream and with any flush mode.
\<close>

theorem buf_error_only_without_buffering:
  "status_of (fastlzlibProcess cmp dcmp s flush True) \<noteq> Some Z_BUF_ERROR"
proof (cases "(is_null (in_win s) \<and> \<not> ZFAST_INPUT_IS_EMPTY s)
              \<or> (is_null (out_win s) \<and> \<not> ZFAST_OUTPUT_IS_FULL s)")
  case True
  then show ?thesis
    by (auto simp: fastlzlibProcess_def Z_BUF_ERROR_def Z_STREAM_ERROR_def)
next
  case sane: False
  show ?thesis
  proof (cases "state s")
    case None
    with sane show ?thesis by (auto simp: fastlzlibProcess_def)
  next
    case (Some st)
    show ?thesis
    proof (cases "ZFAST_HAS_BUFFERED_OUTPUT st")
      case True
      with sane Some show ?thesis
        by (auto simp: fastlzlibProcess_def Z_BUF_ERROR_def Z_OK_def split: prod.splits)
    next
      case nobuf: False
      define H where "H = (if str_size st = 0 then process_header s st flush True
                           else Goes (s, st, None))"
      have H: "H \<noteq> Returns Z_BUF_ERROR a b" for a b
        by (simp add: H_def process_header_no_buf_error)
      note P = fastlzlibProcess_unbuffered [of s st cmp dcmp flush True, folded H_def]
      show ?thesis
      proof (cases H)
        case (Fails f)
        with sane Some nobuf show ?thesis by (simp add: P)
      next
        case (Returns r a b)
        with H [of a b] sane Some nobuf show ?thesis by (auto simp: P)
      next
        case (Goes x)
        obtain s1 st1 in1 where x: "x = (s1, st1, in1)" by (cases x)
        obtain s2 st2 in2 where pi: "process_input s1 st1 in1 flush = (s2, st2, in2)"
          by (cases "process_input s1 st1 in1 flush")
        show ?thesis
        proof (cases in2)
          case None
          with sane Some nobuf show ?thesis
            by (simp add: P Goes x pi Z_BUF_ERROR_def Z_OK_def Z_STREAM_END_def)
        next
          case in2: (Some xs)
          show ?thesis
          proof (cases "process_block cmp dcmp s2 st2 xs flush")
            case (Fails f)
            with sane Some nobuf show ?thesis by (simp add: P Goes x pi in2)
          next
            case (Returns r a b)
            with process_block_no_buf_error [of cmp dcmp s2 st2 xs flush a b] sane Some nobuf
            show ?thesis by (auto simp: P Goes x pi in2)
          next
            case inner: (Goes y)
            obtain s3 st3 where y: "y = (s3, st3)" by (cases y)
            from sane Some nobuf show ?thesis
              by (simp add: P Goes x pi in2 inner y Z_BUF_ERROR_def Z_OK_def Z_STREAM_END_def)
          qed
        qed
      qed
    qed
  qed
qed

subsection \<open>Draining buffered output\<close>

lemma avail_state_update [simp]:
  "avail_in (s\<lparr>state := x\<rparr>) = avail_in s" "avail_out (s\<lparr>state := x\<rparr>) = avail_out s"
  by (simp_all add: avail_in_def avail_out_def)

lemma process_drain_in_win:
  "process_drain (s\<lparr>in_win := w\<rparr>) st =
     (case process_drain s st of (s', st') \<Rightarrow> (s'\<lparr>in_win := w\<rparr>, st'))"
  by (simp add: process_drain_def Let_def outSeek_def memcpy_out_def avail_out_def)

text \<open>The drain on a stream that passes the sanity check of the cursors.\<close>

lemma drain_sane_call:
  assumes st: "state s = Some st" and buf: "ZFAST_HAS_BUFFERED_OUTPUT st"
    and sane_in: "is_null (in_win s) \<longrightarrow> avail_in s = 0"
    and sane_out: "is_null (out_win s) \<longrightarrow> avail_out s = 0"
  shows "\<exists>s' st'. fastlzlibProcess cmp dcmp s flush may_buffer = Inr (Z_OK, s')
     \<and> state s' = Some st'
     \<and> in_win s' = in_win s \<and> avail_in s' = avail_in s \<and> total_in s' = total_in s
     \<and> length (out_data s') = length (out_data s) + min (dec_size st - outBuffOffs st) (avail_out s)
     \<and> avail_out s' = avail_out s - min (dec_size st - outBuffOffs st) (avail_out s)
     \<and> outBuffOffs st' = outBuffOffs st + min (dec_size st - outBuffOffs st) (avail_out s)
     \<and> (dec_size st \<le> length (outBuff st) \<longrightarrow>
          out_data s' = out_data s
            @ take (min (dec_size st - outBuffOffs st) (avail_out s))
                (drop (outBuffOffs st) (outBuff st)))
     \<and> (\<forall>w. fastlzlibProcess cmp dcmp (s\<lparr>in_win := Win w\<rparr>) flush may_buffer
            = Inr (Z_OK, s'\<lparr>in_win := Win w\<rparr>))"
proof -
  define n where "n = min (dec_size st - outBuffOffs st) (avail_out s)"
  have sz: "(if dec_size st - outBuffOffs st > avail_out s then avail_out s
                  else dec_size st - outBuffOffs st) = n"
    by (simp add: n_def min_def)
  obtain s1 st1 where d: "process_drain s st = (s1, st1)" by (cases "process_drain s st")
  have P: "fastlzlibProcess cmp dcmp s flush may_buffer = Inr (Z_OK, s1\<lparr>state := Some st1\<rparr>)"
    using assms d
    by (auto simp: fastlzlibProcess_def ZFAST_INPUT_IS_EMPTY_def ZFAST_OUTPUT_IS_FULL_def)
  have Pw: "fastlzlibProcess cmp dcmp (s\<lparr>in_win := Win w\<rparr>) flush may_buffer
      = Inr (Z_OK, (s1\<lparr>state := Some st1\<rparr>)\<lparr>in_win := Win w\<rparr>)" for w
  proof -
    have "process_drain (s\<lparr>in_win := Win w\<rparr>) st = (s1\<lparr>in_win := Win w\<rparr>, st1)"
      using d by (simp add: process_drain_in_win)
    then show ?thesis
      using assms
      by (auto simp: fastlzlibProcess_def ZFAST_INPUT_IS_EMPTY_def ZFAST_OUTPUT_IS_FULL_def
          avail_out_def)
  qed
  show ?thesis
  proof (cases "n = 0")
    case True
    then have "s1 = s" "st1 = st" using d sz by (simp_all add: process_drain_def)
    moreover have "min (dec_size st - outBuffOffs st) (avail_out s) = 0"
      using True by (simp add: n_def)
    ultimately show ?thesis using P Pw st by simp
  next
    case False
    then have pos: "0 < n" by simp
    have navail: "n \<le> avail_out s" by (simp add: n_def)
    obtain room where room: "out_win s = Win room"
      using sane_out navail pos by (cases "out_win s") (auto simp: avail_out_def)
    have nroom: "n \<le> length room" using navail room by (simp add: avail_out_def)
    define bs where "bs = take n (drop (outBuffOffs st) (outBuff st))"
    have s1: "s1 = outSeek (memcpy_out s bs) n"
      and st1: "st1 = st\<lparr>outBuffOffs := outBuffOffs st + n\<rparr>"
      using d sz pos by (simp_all add: process_drain_def bs_def)
    have lbs: "length bs \<le> n" by (simp add: bs_def)
    have data: "out_data s1 = out_data s @ take n (bs @ drop (length bs) room)"
      by (simp add: s1 outSeek_def memcpy_out_def room)
    have full: "dec_size st \<le> length (outBuff st) \<Longrightarrow> length bs = n"
      using buf by (simp add: bs_def n_def ZFAST_HAS_BUFFERED_OUTPUT_def)
    have "length (out_data s1) = length (out_data s) + n"
      using data lbs nroom by simp
    moreover have "avail_out s1 = avail_out s - n"
      using lbs nroom by (simp add: s1 outSeek_def memcpy_out_def room avail_out_def)
    moreover have "in_win s1 = in_win s" "total_in s1 = total_in s"
      by (simp_all add: s1 outSeek_def memcpy_out_def)
    moreover have "dec_size st \<le> length (outBuff st) \<longrightarrow> out_data s1 = out_data s @ bs"
      using data full by simp
    ultimately show ?thesis
      using P Pw st1 by (simp add: n_def [symmetric] bs_def avail_in_def)
  qed
qed

text \<open>
  C10, as the code has it. The sanity check of the cursors comes before the drain. On a
  stream with buffered output pending, a call whose input cursor is \<^verbatim>\<open>NULL\<close> with a count
  other than 0 returns \<^verbatim>\<open>Z_STREAM_ERROR\<close> and changes nothing of the stream but \<^verbatim>\<open>msg\<close>:
  nothing is drained; so does a call whose output cursor is \<^verbatim>\<open>NULL\<close> with a count other
  than 0. Every other call returns \<^verbatim>\<open>Z_OK\<close>, moves
  \<open>min (dec_size - outBuffOffs) avail_out\<close> bytes of \<^verbatim>\<open>outBuff\<close>, from \<^verbatim>\<open>outBuffOffs\<close> on,
  to \<^verbatim>\<open>next_out\<close>, and leaves \<^verbatim>\<open>next_in\<close>, \<^verbatim>\<open>avail_in\<close> and \<^verbatim>\<open>total_in\<close> as they were; with
  any other bytes in the input window the call does the same.
\<close>

theorem drain_call:
  assumes st: "state s = Some st" and buf: "ZFAST_HAS_BUFFERED_OUTPUT st"
  shows "if is_null (in_win s) \<and> avail_in s \<noteq> 0
     then fastlzlibProcess cmp dcmp s flush may_buffer
            = Inr (Z_STREAM_ERROR, s\<lparr>msg := Some ''Invalid input''\<rparr>)
     else if is_null (out_win s) \<and> avail_out s \<noteq> 0
     then fastlzlibProcess cmp dcmp s flush may_buffer
            = Inr (Z_STREAM_ERROR, s\<lparr>msg := Some ''Invalid output''\<rparr>)
     else (\<exists>s' st'. fastlzlibProcess cmp dcmp s flush may_buffer = Inr (Z_OK, s')
       \<and> state s' = Some st'
       \<and> in_win s' = in_win s \<and> avail_in s' = avail_in s \<and> total_in s' = total_in s
       \<and> length (out_data s') = length (out_data s) + min (dec_size st - outBuffOffs st) (avail_out s)
       \<and> avail_out s' = avail_out s - min (dec_size st - outBuffOffs st) (avail_out s)
       \<and> outBuffOffs st' = outBuffOffs st + min (dec_size st - outBuffOffs st) (avail_out s)
       \<and> (dec_size st \<le> length (outBuff st) \<longrightarrow>
            out_data s' = out_data s
              @ take (min (dec_size st - outBuffOffs st) (avail_out s))
                  (drop (outBuffOffs st) (outBuff st)))
       \<and> (\<forall>w. fastlzlibProcess cmp dcmp (s\<lparr>in_win := Win w\<rparr>) flush may_buffer
              = Inr (Z_OK, s'\<lparr>in_win := Win w\<rparr>)))"
proof (cases "is_null (in_win s) \<and> avail_in s \<noteq> 0")
  case True
  then show ?thesis
    by (simp add: fastlzlibProcess_def ZFAST_INPUT_IS_EMPTY_def)
next
  case si: False
  show ?thesis
  proof (cases "is_null (out_win s) \<and> avail_out s \<noteq> 0")
    case True
    then show ?thesis
      using si by (auto simp: fastlzlibProcess_def ZFAST_INPUT_IS_EMPTY_def ZFAST_OUTPUT_IS_FULL_def)
  next
    case so: False
    have a: "is_null (in_win s) \<longrightarrow> avail_in s = 0" using si by simp
    have b: "is_null (out_win s) \<longrightarrow> avail_out s = 0" using so by simp
    from drain_sane_call [OF st buf a b, of cmp dcmp flush may_buffer] si so
    show ?thesis by (simp only: if_False)
  qed
qed

lemma pending_stream_eq:
  "pending_stream =
    \<lparr>in_win = Win [], total_in = 25, out_win = Win [], out_data = [], total_out = 0, msg = None,
     state = Some pending_state\<rparr>"
  using read_write_header [of BLOCK_TYPE_RAW 32768 5 5 "[]"]
    length_write_header [of BLOCK_TYPE_RAW 32768 5 5]
  by (simp add: pending_stream_def pending_state_def decompressor_eq feed_def process_defs
      macro_defs const_defs Let_def hello_def)

theorem drain_call_witness:
  "state (feed pending_stream [] (replicate 3 0)) = Some pending_state
   \<and> ZFAST_HAS_BUFFERED_OUTPUT pending_state
   \<and> \<not> is_null (in_win (feed pending_stream [] (replicate 3 0)))
   \<and> \<not> is_null (out_win (feed pending_stream [] (replicate 3 0)))
   \<and> dec_size pending_state \<le> length (outBuff pending_state)
   \<and> status_of (fastlzlibProcess store_cmp store_dcmp
         (feed pending_stream [] (replicate 3 0)) Z_NO_FLUSH True) = Some Z_OK
   \<and> out_data (stream_of (fastlzlibProcess store_cmp store_dcmp
         (feed pending_stream [] (replicate 3 0)) Z_NO_FLUSH True)) = take 3 hello
   \<and> in_win (stream_of (fastlzlibProcess store_cmp store_dcmp
         (feed pending_stream [] (replicate 3 0)) Z_NO_FLUSH True)) = Win []"
proof -
  have a: "state (feed pending_stream [] (replicate 3 0)) = Some pending_state"
    by (simp add: feed_def pending_stream_eq)
  have b: "ZFAST_HAS_BUFFERED_OUTPUT pending_state"
    by (simp add: pending_state_def ZFAST_HAS_BUFFERED_OUTPUT_def)
  have c: "is_null (in_win (feed pending_stream [] (replicate 3 0)))
             \<longrightarrow> avail_in (feed pending_stream [] (replicate 3 0)) = 0"
    by (simp add: feed_def)
  have d: "is_null (out_win (feed pending_stream [] (replicate 3 0)))
             \<longrightarrow> avail_out (feed pending_stream [] (replicate 3 0)) = 0"
    by (simp add: feed_def)
  have e: "dec_size pending_state \<le> length (outBuff pending_state)"
    by (simp add: pending_state_def hello_def)
  from drain_call [OF a b, of store_cmp store_dcmp Z_NO_FLUSH True] c d e
  obtain s' where
    "fastlzlibProcess store_cmp store_dcmp (feed pending_stream [] (replicate 3 0)) Z_NO_FLUSH True
       = Inr (Z_OK, s')"
    "in_win s' = in_win (feed pending_stream [] (replicate 3 0))"
    "out_data s' = out_data (feed pending_stream [] (replicate 3 0))
       @ take (min (dec_size pending_state - outBuffOffs pending_state)
                 (avail_out (feed pending_stream [] (replicate 3 0))))
           (drop (outBuffOffs pending_state) (outBuff pending_state))"
    by (auto split: if_splits)
  then show ?thesis
    using a b e
    by (simp add: feed_def pending_stream_eq pending_state_def avail_out_def hello_def)
qed

text \<open>
  C10 as stated fails: with buffered output pending, room for three bytes at \<^verbatim>\<open>next_out\<close>
  and a \<^verbatim>\<open>NULL\<close> input cursor whose count is 5, the call returns \<^verbatim>\<open>Z_STREAM_ERROR\<close> from the
  sanity check, not \<^verbatim>\<open>Z_OK\<close>, and drains nothing.
\<close>

theorem drain_null_input_counterexample:
  "pending (pending_stream\<lparr>in_win := Null 5, out_win := Win (replicate 3 0)\<rparr>)
   \<and> fastlzlibProcess store_cmp store_dcmp
         (pending_stream\<lparr>in_win := Null 5, out_win := Win (replicate 3 0)\<rparr>) Z_NO_FLUSH True
       = Inr (Z_STREAM_ERROR,
              pending_stream\<lparr>in_win := Null 5, out_win := Win (replicate 3 0),
                msg := Some ''Invalid input''\<rparr>)"
  by (simp add: pending_stream_eq pending_state_def pending_def fastlzlibProcess_def macro_defs
      const_defs)

subsection \<open>Phases of one call\<close>

text \<open>When a decompressing stream with no block in progress finds a complete RAW block at
  \<^verbatim>\<open>next_in\<close> and has room for it at \<^verbatim>\<open>next_out\<close>, a single call parses the header,
  consumes the payload and delivers it.\<close>

lemma decode_raw_block_in_one_call:
  assumes st: "state s = Some st" and dec: "ZFAST_IS_DECOMPRESSING st"
    and nobuf: "\<not> ZFAST_HAS_BUFFERED_OUTPUT st" and idle: "str_size st = 0" "inHdrOffs st = 0"
    and win: "in_win s = Win (fastlz_write_header BLOCK_TYPE_RAW b n n @ payload @ rest)"
    and len: "length payload = n" and pos: "0 < n" and small: "n \<le> block_size st"
    and bs: "block_size st + block_size st div 10 + 40 < 2 ^ 32"
    and out: "out_win s = Win room" and fits: "n \<le> length room"
  shows "\<exists>s' st'. fastlzlibDecompress2 cmp dcmp s may_buffer = Inr (Z_OK, s')
     \<and> state s' = Some st'
     \<and> in_win s' = Win rest
     \<and> total_in s' = (total_in s + 20 + n) mod 2 ^ 64
     \<and> out_data s' = out_data s @ payload
     \<and> str_size st' = 0 \<and> \<not> ZFAST_HAS_BUFFERED_OUTPUT st'"
proof -
  have n32: "n < 2 ^ 32" using small bs by simp
  have hdr: "fastlz_read_header (fastlz_write_header BLOCK_TYPE_RAW b n n)
               = (BLOCK_TYPE_RAW, n, n, n)"
    using read_write_header [of BLOCK_TYPE_RAW b n n "[]"] n32 by (simp add: BLOCK_TYPE_RAW_def)
  have lh: "length (fastlz_write_header BLOCK_TYPE_RAW b n n) = 20"
    using length_write_header [of BLOCK_TYPE_RAW b n n] by (simp add: HEADER_SIZE_def)
  define s1 where "s1 = inSeek s HEADER_SIZE"
  define st1 where "st1 = st\<lparr>block_type := BLOCK_TYPE_RAW, str_size := n, dec_size := n\<rparr>"
  have dh: "decompress_header s st may_buffer = Goes (s1, st1, n)"
    using idle win len out fits hdr lh
    by (simp add: decompress_header_def decompress_header_parse_def avail_in_def avail_out_def
        HEADER_SIZE_def s1_def st1_def)
  define st2 where "st2 = st1\<lparr>outBuffOffs := n\<rparr>"
  have in1: "in_win s1 = Win (payload @ rest)"
    using win lh by (simp add: s1_def inSeek_def HEADER_SIZE_def)
  have ph: "process_header s st flush may_buffer
      = Goes (inSeek s1 n, st2, Some payload)" for flush
    using dec dh small pos bs in1 len
    by (simp add: process_header_def Let_def st1_def st2_def const_defs BLOCK_SIZE_def
        BUFFER_BLOCK_SIZE_def avail_in_def)
  have pin: "process_input (inSeek s1 n) st2 (Some payload) flush
      = (inSeek s1 n, st2, Some payload)" for flush
    by (simp add: process_input_def)
  define s3 where "s3 = outSeek (memcpy_out (inSeek s1 n) payload) n"
  define st3 where "st3 = st2\<lparr>outBuffOffs := n, str_size := 0\<rparr>"
  have out1: "out_win (inSeek s1 n) = Win room"
    using out by (simp add: s1_def inSeek_def)
  have pb: "process_block cmp dcmp (inSeek s1 n) st2 payload flush = Goes (s3, st3)" for flush
    using dec out1 fits
    by (simp add: process_block_def decompress_block_def Let_def st2_def st1_def s3_def st3_def
        const_defs avail_out_def ZFAST_IS_DECOMPRESSING_def ZFAST_IS_COMPRESSING_def)
  have sane: "\<not> (is_null (in_win s) \<and> \<not> ZFAST_INPUT_IS_EMPTY s)"
     "\<not> (is_null (out_win s) \<and> \<not> ZFAST_OUTPUT_IS_FULL s)"
    using win out by simp_all
  have P: "fastlzlibProcess cmp dcmp s Z_NO_FLUSH may_buffer
      = Inr (Z_OK, s3\<lparr>state := Some st3\<rparr>)"
    using fastlzlibProcess_unbuffered [OF sane st nobuf, of cmp dcmp Z_NO_FLUSH may_buffer]
    by (simp add: idle ph pin pb const_defs)
  have "in_win s3 = Win rest"
    using in1 len by (simp add: s3_def outSeek_def memcpy_out_def inSeek_def)
  moreover have "total_in s3 = (total_in s + 20 + n) mod 2 ^ 64"
    by (simp add: s3_def s1_def outSeek_def memcpy_out_def inSeek_def const_defs mod_simps
        add.assoc)
  moreover have "out_data s3 = out_data s @ payload"
    using out fits len by (simp add: s3_def s1_def outSeek_def memcpy_out_def inSeek_def)
  moreover have "str_size st3 = 0" "\<not> ZFAST_HAS_BUFFERED_OUTPUT st3"
    by (simp_all add: st3_def st2_def st1_def ZFAST_HAS_BUFFERED_OUTPUT_def)
  ultimately show ?thesis
    using P st dec by (simp add: fastlzlibDecompress2_def)
qed

text \<open>When the header section returns, and when the block section returns.\<close>

lemma decompress_header_parse_Returns:
  "decompress_header_parse s st may_buffer = Returns r s1 st1 \<Longrightarrow>
     r = Z_BUF_ERROR \<and> \<not> may_buffer \<or> r = Z_OK \<and> may_buffer \<and> inHdrOffs st1 \<noteq> HEADER_SIZE"
  by (auto simp: decompress_header_parse_def split: if_splits prod.splits)

lemma decompress_header_Returns:
  "decompress_header s st may_buffer = Returns r s1 st1 \<Longrightarrow>
     r = Z_BUF_ERROR \<and> \<not> may_buffer \<or> r = Z_OK \<and> may_buffer \<and> inHdrOffs st1 \<noteq> HEADER_SIZE"
  using decompress_header_parse_Returns
  by (auto simp: decompress_header_def split: if_splits prod.splits)

lemma compress_header_Returns:
  "compress_header s st flush may_buffer = Returns r s1 st1 \<Longrightarrow>
     r = Z_BUF_ERROR \<and> \<not> may_buffer"
  by (auto simp: compress_header_def compress_header_apply_def split: if_splits)

lemma process_header_Returns:
  assumes "process_header s st flush may_buffer = Returns r s1 st1"
  shows "r = Z_BUF_ERROR \<and> \<not> may_buffer
     \<or> r = Z_OK \<and> may_buffer \<and> ZFAST_IS_DECOMPRESSING st \<and> inHdrOffs st1 \<noteq> HEADER_SIZE
     \<or> r = Z_DATA_ERROR \<or> r = Z_VERSION_ERROR
     \<or> r = Z_STREAM_END \<and> str_size st1 = 0 \<and> dec_size st1 = 0"
proof (cases "if ZFAST_IS_DECOMPRESSING st then decompress_header s st may_buffer
            else compress_header s st flush may_buffer")
  case (Fails f)
  with assms show ?thesis by (simp add: process_header_def)
next
  case (Returns r' a b)
  with assms have e: "r' = r" "a = s1" "b = st1" by (simp_all add: process_header_def)
  show ?thesis
  proof (cases "ZFAST_IS_DECOMPRESSING st")
    case True
    with Returns e have "decompress_header s st may_buffer = Returns r s1 st1" by simp
    from decompress_header_Returns [OF this] True show ?thesis by blast
  next
    case False
    with Returns e have "compress_header s st flush may_buffer = Returns r s1 st1" by simp
    from compress_header_Returns [OF this] show ?thesis by blast
  qed
next
  case (Goes x)
  obtain a b c where x: "x = (a, b, c)" by (cases x)
  from assms show ?thesis
    by (auto simp: process_header_def Goes x Let_def split: if_splits)
qed

lemma process_block_Returns:
  "process_block cmp dcmp s st inp flush = Returns r a b \<Longrightarrow>
     r = Z_STREAM_ERROR \<and> ZFAST_IS_DECOMPRESSING st"
  using decompress_block_Returns [of dcmp s st inp r a b]
    compress_block_Returns [of cmp s st inp _ r a b]
  by (auto simp: process_block_def Let_def split: if_splits)

text \<open>
  C4, as the code has it, on a stream with a state that passes the sanity check of the
  cursors. A call that finds buffered output pending only drains it: it returns \<^verbatim>\<open>Z_OK\<close>
  with the result of the drain, the input cursor and \<^verbatim>\<open>total_in\<close> as they were, and no
  member of the state changed but \<^verbatim>\<open>outBuffOffs\<close>. A call that finds none goes through the
  header section (when no block is in progress), the payload section (when the block is not
  at hand) and the block section (when the block is complete), in this order, and returns
  between them only when one of them returns. The header section returns only
  \<^verbatim>\<open>Z_BUF_ERROR\<close> (buffering is not allowed and the data is short), \<^verbatim>\<open>Z_OK\<close> (the header is
  not complete yet), an error of the header or \<^verbatim>\<open>Z_STREAM_END\<close> (both sizes are 0); the
  block section returns only \<^verbatim>\<open>Z_STREAM_ERROR\<close>, when decompressing. So one call can parse
  a header and transform the block: when a decompressing stream with no block in progress
  finds a complete RAW block at \<^verbatim>\<open>next_in\<close> (the 20-byte header with both sizes \<open>n\<close>, and
  the \<open>n\<close> payload bytes) and has room for \<open>n\<close> bytes at \<^verbatim>\<open>next_out\<close>, a single call of
  \<^verbatim>\<open>fastlzlibDecompress2\<close> parses the header, consumes the payload and delivers it, and
  returns \<^verbatim>\<open>Z_OK\<close> with the block finished.
\<close>

theorem call_phases:
  assumes st: "state s = Some st"
  shows "((is_null (in_win s) \<longrightarrow> avail_in s = 0) \<and> (is_null (out_win s) \<longrightarrow> avail_out s = 0)
       \<and> ZFAST_HAS_BUFFERED_OUTPUT st \<longrightarrow>
       (\<exists>s' st'. process_drain s st = (s', st')
          \<and> fastlzlibProcess cmp dcmp s flush may_buffer = Inr (Z_OK, s'\<lparr>state := Some st'\<rparr>)
          \<and> in_win s' = in_win s \<and> total_in s' = total_in s
          \<and> st' = st\<lparr>outBuffOffs := outBuffOffs st'\<rparr>))
   \<and> ((is_null (in_win s) \<longrightarrow> avail_in s = 0) \<and> (is_null (out_win s) \<longrightarrow> avail_out s = 0)
       \<and> \<not> ZFAST_HAS_BUFFERED_OUTPUT st \<longrightarrow>
       fastlzlibProcess cmp dcmp s flush may_buffer =
         (case (if str_size st = 0 then process_header s st flush may_buffer
                else Goes (s, st, None)) of
            Fails f \<Rightarrow> Inl f
          | Returns r s' st' \<Rightarrow> Inr (r, s'\<lparr>state := Some st'\<rparr>)
          | Goes (s1, st1, in1) \<Rightarrow>
              (case process_input s1 st1 in1 flush of
                 (s2, st2, in2) \<Rightarrow>
                   (case (case in2 of
                            None \<Rightarrow> Goes (s2, st2)
                          | Some xs \<Rightarrow> process_block cmp dcmp s2 st2 xs flush)
                    of
                      Fails f \<Rightarrow> Inl f
                    | Returns r s' st' \<Rightarrow> Inr (r, s'\<lparr>state := Some st'\<rparr>)
                    | Goes (s3, st3) \<Rightarrow>
                        Inr (if flush = Z_FINISH \<and> ZFAST_INPUT_IS_EMPTY s3
                                \<and> \<not> ZFAST_HAS_BUFFERED_OUTPUT st3
                             then Z_STREAM_END else Z_OK,
                             s3\<lparr>state := Some st3\<rparr>)))))
   \<and> (\<forall>r s1 st1. process_header s st flush may_buffer = Returns r s1 st1 \<longrightarrow>
         r = Z_BUF_ERROR \<and> \<not> may_buffer
         \<or> r = Z_OK \<and> may_buffer \<and> ZFAST_IS_DECOMPRESSING st \<and> inHdrOffs st1 \<noteq> HEADER_SIZE
         \<or> r = Z_DATA_ERROR \<or> r = Z_VERSION_ERROR
         \<or> r = Z_STREAM_END \<and> str_size st1 = 0 \<and> dec_size st1 = 0)
   \<and> (\<forall>s2 st2 xs r s3 st3. process_block cmp dcmp s2 st2 xs flush = Returns r s3 st3 \<longrightarrow>
         r = Z_STREAM_ERROR \<and> ZFAST_IS_DECOMPRESSING st2)
   \<and> (ZFAST_IS_DECOMPRESSING st \<and> \<not> ZFAST_HAS_BUFFERED_OUTPUT st
       \<and> str_size st = 0 \<and> inHdrOffs st = 0
       \<and> in_win s = Win (fastlz_write_header BLOCK_TYPE_RAW b n n @ payload @ rest)
       \<and> length payload = n \<and> 0 < n \<and> n \<le> block_size st
       \<and> block_size st + block_size st div 10 + 40 < 2 ^ 32
       \<and> out_win s = Win room \<and> n \<le> length room \<longrightarrow>
       (\<exists>s' st'. fastlzlibDecompress2 cmp dcmp s may_buffer = Inr (Z_OK, s')
          \<and> state s' = Some st'
          \<and> in_win s' = Win rest
          \<and> total_in s' = (total_in s + 20 + n) mod 2 ^ 64
          \<and> out_data s' = out_data s @ payload
          \<and> str_size st' = 0 \<and> \<not> ZFAST_HAS_BUFFERED_OUTPUT st'))"
proof -
  have A: "\<exists>s' st'. process_drain s st = (s', st')
          \<and> fastlzlibProcess cmp dcmp s flush may_buffer = Inr (Z_OK, s'\<lparr>state := Some st'\<rparr>)
          \<and> in_win s' = in_win s \<and> total_in s' = total_in s
          \<and> st' = st\<lparr>outBuffOffs := outBuffOffs st'\<rparr>"
    if "is_null (in_win s) \<longrightarrow> avail_in s = 0" "is_null (out_win s) \<longrightarrow> avail_out s = 0"
      "ZFAST_HAS_BUFFERED_OUTPUT st"
  proof -
    obtain s1 st1 where d: "process_drain s st = (s1, st1)" by (cases "process_drain s st")
    have P: "fastlzlibProcess cmp dcmp s flush may_buffer = Inr (Z_OK, s1\<lparr>state := Some st1\<rparr>)"
      using that st d
      by (auto simp: fastlzlibProcess_def ZFAST_INPUT_IS_EMPTY_def ZFAST_OUTPUT_IS_FULL_def)
    have "in_win s1 = in_win s \<and> total_in s1 = total_in s
        \<and> st1 = st\<lparr>outBuffOffs := outBuffOffs st1\<rparr>"
      using d by (auto simp: process_drain_def Let_def outSeek_def memcpy_out_def split: if_splits)
    with d P show ?thesis by blast
  qed
  have B: "fastlzlibProcess cmp dcmp s flush may_buffer =
         (case (if str_size st = 0 then process_header s st flush may_buffer
                else Goes (s, st, None)) of
            Fails f \<Rightarrow> Inl f
          | Returns r s' st' \<Rightarrow> Inr (r, s'\<lparr>state := Some st'\<rparr>)
          | Goes (s1, st1, in1) \<Rightarrow>
              (case process_input s1 st1 in1 flush of
                 (s2, st2, in2) \<Rightarrow>
                   (case (case in2 of
                            None \<Rightarrow> Goes (s2, st2)
                          | Some xs \<Rightarrow> process_block cmp dcmp s2 st2 xs flush)
                    of
                      Fails f \<Rightarrow> Inl f
                    | Returns r s' st' \<Rightarrow> Inr (r, s'\<lparr>state := Some st'\<rparr>)
                    | Goes (s3, st3) \<Rightarrow>
                        Inr (if flush = Z_FINISH \<and> ZFAST_INPUT_IS_EMPTY s3
                                \<and> \<not> ZFAST_HAS_BUFFERED_OUTPUT st3
                             then Z_STREAM_END else Z_OK,
                             s3\<lparr>state := Some st3\<rparr>))))"
    if "is_null (in_win s) \<longrightarrow> avail_in s = 0" "is_null (out_win s) \<longrightarrow> avail_out s = 0"
      "\<not> ZFAST_HAS_BUFFERED_OUTPUT st"
  proof -
    have "\<not> (is_null (in_win s) \<and> \<not> ZFAST_INPUT_IS_EMPTY s)"
      "\<not> (is_null (out_win s) \<and> \<not> ZFAST_OUTPUT_IS_FULL s)"
      using that by (auto simp: ZFAST_INPUT_IS_EMPTY_def ZFAST_OUTPUT_IS_FULL_def)
    from fastlzlibProcess_unbuffered [OF this st that(3)] show ?thesis .
  qed
  have C: "\<forall>r s1 st1. process_header s st flush may_buffer = Returns r s1 st1 \<longrightarrow>
         r = Z_BUF_ERROR \<and> \<not> may_buffer
         \<or> r = Z_OK \<and> may_buffer \<and> ZFAST_IS_DECOMPRESSING st \<and> inHdrOffs st1 \<noteq> HEADER_SIZE
         \<or> r = Z_DATA_ERROR \<or> r = Z_VERSION_ERROR
         \<or> r = Z_STREAM_END \<and> str_size st1 = 0 \<and> dec_size st1 = 0"
    using process_header_Returns by blast
  have D: "\<forall>s2 st2 xs r s3 st3. process_block cmp dcmp s2 st2 xs flush = Returns r s3 st3 \<longrightarrow>
         r = Z_STREAM_ERROR \<and> ZFAST_IS_DECOMPRESSING st2"
    using process_block_Returns by blast
  have E: "\<exists>s' st'. fastlzlibDecompress2 cmp dcmp s may_buffer = Inr (Z_OK, s')
          \<and> state s' = Some st'
          \<and> in_win s' = Win rest
          \<and> total_in s' = (total_in s + 20 + n) mod 2 ^ 64
          \<and> out_data s' = out_data s @ payload
          \<and> str_size st' = 0 \<and> \<not> ZFAST_HAS_BUFFERED_OUTPUT st'"
    if "ZFAST_IS_DECOMPRESSING st" "\<not> ZFAST_HAS_BUFFERED_OUTPUT st"
      "str_size st = 0" "inHdrOffs st = 0"
      "in_win s = Win (fastlz_write_header BLOCK_TYPE_RAW b n n @ payload @ rest)"
      "length payload = n" "0 < n" "n \<le> block_size st"
      "block_size st + block_size st div 10 + 40 < 2 ^ 32"
      "out_win s = Win room" "n \<le> length room"
    by (rule decode_raw_block_in_one_call [OF st that])
  from A B C D E show ?thesis by blast
qed

theorem call_phases_witness:
  "\<not> pending (feed (decompressor 32768) hello_stream (replicate 100 0))
   \<and> in_win (feed (decompressor 32768) hello_stream (replicate 100 0))
        = Win (fastlz_write_header BLOCK_TYPE_RAW 32768 5 5 @ hello
                 @ fastlz_write_header BLOCK_TYPE_COMPRESSED 32768 0 0)
   \<and> length hello = 5
   \<and> status_of (fastlzlibDecompress2 store_cmp store_dcmp
         (feed (decompressor 32768) hello_stream (replicate 100 0)) False) = Some Z_OK
   \<and> in_win (stream_of (fastlzlibDecompress2 store_cmp store_dcmp
         (feed (decompressor 32768) hello_stream (replicate 100 0)) False))
        = Win (fastlz_write_header BLOCK_TYPE_COMPRESSED 32768 0 0)
   \<and> out_data (stream_of (fastlzlibDecompress2 store_cmp store_dcmp
         (feed (decompressor 32768) hello_stream (replicate 100 0)) False)) = hello"
proof -
  let ?s = "feed (decompressor 32768) hello_stream (replicate 100 0)"
  let ?st = "pending_state\<lparr>block_type := 0, dec_size := 0, outBuff := replicate 36084 0\<rparr>"
  have st: "state ?s = Some ?st"
    by (simp add: feed_def decompressor_eq pending_state_def)
  have dec: "ZFAST_IS_DECOMPRESSING ?st"
    by (simp add: pending_state_def macro_defs const_defs)
  have nobuf: "\<not> ZFAST_HAS_BUFFERED_OUTPUT ?st"
    by (simp add: pending_state_def macro_defs)
  have idle: "str_size ?st = 0" "inHdrOffs ?st = 0"
    by (simp_all add: pending_state_def)
  have win: "in_win ?s = Win (fastlz_write_header BLOCK_TYPE_RAW 32768 5 5 @ hello
      @ fastlz_write_header BLOCK_TYPE_COMPRESSED 32768 0 0)"
    by (simp add: feed_def hello_stream_def)
  have len: "length hello = 5" by (simp add: hello_def)
  have small: "5 \<le> block_size ?st"
    and bs: "block_size ?st + block_size ?st div 10 + 40 < 2 ^ 32"
    by (simp_all add: pending_state_def)
  have out: "out_win ?s = Win (replicate 100 0)" by (simp add: feed_def)
  have fits: "0 < (5 :: nat)" "5 \<le> length (replicate 100 (0 :: byte))" by simp_all
  note raw = call_phases [OF st, where cmp = store_cmp and dcmp = store_dcmp
      and may_buffer = False and b = 32768 and n = 5 and payload = hello
      and rest = "fastlz_write_header BLOCK_TYPE_COMPRESSED 32768 0 0"
      and room = "replicate 100 0",
      THEN conjunct2, THEN conjunct2, THEN conjunct2, THEN conjunct2]
  from raw dec nobuf idle win len small bs out fits
  obtain s' where "fastlzlibDecompress2 store_cmp store_dcmp ?s False = Inr (Z_OK, s')"
    "in_win s' = Win (fastlz_write_header BLOCK_TYPE_COMPRESSED 32768 0 0)"
    "out_data s' = out_data ?s @ hello"
    by auto
  then show ?thesis
    using st nobuf win len by (simp add: pending_def) (simp add: feed_def decompressor_eq)
qed

text \<open>
  C4 as stated fails. One call of \<^verbatim>\<open>fastlzlibDecompress\<close> on a fresh stream, with the
  stream of \<open>hello\<close> at \<^verbatim>\<open>next_in\<close> and room for 100 bytes, parses the header of the RAW
  block and transforms its payload: it returns \<^verbatim>\<open>Z_OK\<close> with 25 bytes consumed (header and
  payload), the five bytes delivered, and \<^verbatim>\<open>next_in\<close> at the end-of-stream marker.
\<close>

theorem one_call_two_phases_counterexample:
  "status_of (fastlzlibDecompress store_cmp store_dcmp
       (feed (decompressor 32768) hello_stream (replicate 100 0))) = Some Z_OK
   \<and> total_in (stream_of (fastlzlibDecompress store_cmp store_dcmp
       (feed (decompressor 32768) hello_stream (replicate 100 0)))) = 25
   \<and> in_win (stream_of (fastlzlibDecompress store_cmp store_dcmp
       (feed (decompressor 32768) hello_stream (replicate 100 0))))
      = Win (fastlz_write_header BLOCK_TYPE_COMPRESSED 32768 0 0)
   \<and> out_data (stream_of (fastlzlibDecompress store_cmp store_dcmp
       (feed (decompressor 32768) hello_stream (replicate 100 0)))) = hello"
  using read_write_header [of BLOCK_TYPE_RAW 32768 5 5 "[]"]
    length_write_header [of BLOCK_TYPE_RAW 32768 5 5]
    length_write_header [of BLOCK_TYPE_COMPRESSED 32768 0 0]
  by (simp add: decompressor_eq feed_def process_defs macro_defs const_defs Let_def hello_def
      hello_stream_def)

subsection \<open>Resynchronisation\<close>

lemma magic_bytewise:
  "7 \<le> length xs \<Longrightarrow>
     (xs ! 0 = BLOCK_MAGIC ! 0 \<and> xs ! 1 = BLOCK_MAGIC ! 1 \<and> xs ! 2 = BLOCK_MAGIC ! 2
      \<and> xs ! 3 = BLOCK_MAGIC ! 3 \<and> xs ! 4 = BLOCK_MAGIC ! 4 \<and> xs ! 5 = BLOCK_MAGIC ! 5
      \<and> xs ! 6 = BLOCK_MAGIC ! 6) = (take 7 xs = BLOCK_MAGIC)"
proof -
  assume l: "7 \<le> length xs"
  have "(take 7 xs = BLOCK_MAGIC) = (\<forall>i<7. take 7 xs ! i = BLOCK_MAGIC ! i)"
    using l by (simp add: list_eq_iff_nth_eq BLOCK_MAGIC_def)
  also have "\<dots> = (\<forall>i<7. xs ! i = BLOCK_MAGIC ! i)" by simp
  also have "\<dots> = (xs ! 0 = BLOCK_MAGIC ! 0 \<and> xs ! 1 = BLOCK_MAGIC ! 1 \<and> xs ! 2 = BLOCK_MAGIC ! 2
      \<and> xs ! 3 = BLOCK_MAGIC ! 3 \<and> xs ! 4 = BLOCK_MAGIC ! 4 \<and> xs ! 5 = BLOCK_MAGIC ! 5
      \<and> xs ! 6 = BLOCK_MAGIC ! 6)"
  proof -
    have "{..<7::nat} = {0, 1, 2, 3, 4, 5, 6}" by auto
    then have "(\<forall>i<7. xs ! i = BLOCK_MAGIC ! i)
        = (\<forall>i\<in>{0, 1, 2, 3, 4, 5, 6::nat}. xs ! i = BLOCK_MAGIC ! i)"
      by (metis lessThan_iff)
    then show ?thesis by simp
  qed
  finally show ?thesis by simp
qed

text \<open>One turn of the loop, on a valid input window.\<close>

lemma sync_loop_step:
  assumes "in_win s = Win xs"
  shows "sync_loop s st =
     (if 20 \<le> length xs then
        (if sync_stop xs then Inr (Z_OK, s, st)
         else sync_loop (inSeek s 1) (st\<lparr>inHdrOffs := inHdrOffs st + 1\<rparr>))
      else Inr (Z_DATA_ERROR, s\<lparr>msg := Some ''No flush point found''\<rparr>, st))"
proof (cases "20 \<le> length xs")
  case True
  then have "7 \<le> length xs" by simp
  note m = magic_bytewise [OF this]
  show ?thesis
    apply (subst sync_loop.simps)
    apply (simp only: assms window.case m)
    apply (simp add: avail_in_def HEADER_SIZE_def sync_stop_def assms True
        fastlzlibGetStreamBlockSize_def fastlz_read_header_def unat_eq_0)
    done
next
  case False
  with assms show ?thesis
    by (subst sync_loop.simps) (simp add: avail_in_def HEADER_SIZE_def)
qed

lemma sync_loop_found:
  "in_win s = Win xs \<Longrightarrow> k + 20 \<le> length xs \<Longrightarrow> sync_stop (drop k xs) \<Longrightarrow>
   (\<forall>j<k. \<not> sync_stop (drop j xs)) \<Longrightarrow>
   \<exists>s'. sync_loop s st = Inr (Z_OK, s', st\<lparr>inHdrOffs := inHdrOffs st + k\<rparr>)
     \<and> in_win s' = Win (drop k xs)
     \<and> total_in s' mod ULONG_MOD = (total_in s + k) mod ULONG_MOD
     \<and> out_win s' = out_win s \<and> out_data s' = out_data s \<and> total_out s' = total_out s
     \<and> msg s' = msg s"
proof (induction k arbitrary: s st xs)
  case 0
  then show ?case
    by (simp add: sync_loop_step [of s xs st])
next
  case (Suc k)
  let ?s = "inSeek s 1" and ?st = "st\<lparr>inHdrOffs := inHdrOffs st + 1\<rparr>"
  have w: "in_win ?s = Win (drop 1 xs)" using Suc.prems(1) by (simp add: inSeek_def)
  have nf: "\<not> sync_stop xs" using Suc.prems(4) [rule_format, of 0] by simp
  have later: "\<forall>j<k. \<not> sync_stop (drop j (drop 1 xs))"
    using Suc.prems(4) by auto
  have "\<exists>s'. sync_loop ?s ?st = Inr (Z_OK, s', ?st\<lparr>inHdrOffs := inHdrOffs ?st + k\<rparr>)
     \<and> in_win s' = Win (drop k (drop 1 xs))
     \<and> total_in s' mod ULONG_MOD = (total_in ?s + k) mod ULONG_MOD
     \<and> out_win s' = out_win ?s \<and> out_data s' = out_data ?s \<and> total_out s' = total_out ?s
     \<and> msg s' = msg ?s"
    using Suc.IH [OF w _ _ later, of ?st] Suc.prems(2,3) by simp
  moreover have "(total_in ?s + k) mod ULONG_MOD = (total_in s + Suc k) mod ULONG_MOD"
    by (simp add: inSeek_def mod_simps)
  ultimately show ?case
    using Suc.prems(1,2) nf
    by (simp add: sync_loop_step [of s xs st]) (auto simp add: inSeek_def)
qed

lemma sync_loop_not_found:
  "in_win s = Win xs \<Longrightarrow> (\<forall>j. j + 20 \<le> length xs \<longrightarrow> \<not> sync_stop (drop j xs)) \<Longrightarrow>
   \<exists>s'. sync_loop s st
            = Inr (Z_DATA_ERROR, s', st\<lparr>inHdrOffs := inHdrOffs st + (length xs - 19)\<rparr>)
     \<and> in_win s' = Win (drop (length xs - 19) xs)
     \<and> total_in s' mod ULONG_MOD = (total_in s + (length xs - 19)) mod ULONG_MOD
     \<and> out_win s' = out_win s \<and> out_data s' = out_data s \<and> total_out s' = total_out s
     \<and> msg s' = Some ''No flush point found''"
proof (induction "length xs - 19" arbitrary: s st xs)
  case 0
  then have "\<not> 20 \<le> length xs" by simp
  with 0 show ?case
    by (simp add: sync_loop_step [of s xs st])
next
  case (Suc m)
  let ?s = "inSeek s 1" and ?st = "st\<lparr>inHdrOffs := inHdrOffs st + 1\<rparr>"
  have l: "20 \<le> length xs" using Suc.hyps(2) by simp
  have w: "in_win ?s = Win (drop 1 xs)" using Suc.prems(1) by (simp add: inSeek_def)
  have nf: "\<not> sync_stop xs" using Suc.prems(2) [rule_format, of 0] l by simp
  have m: "m = length (drop 1 xs) - 19" using Suc.hyps(2) by simp
  have later: "\<forall>j. j + 20 \<le> length (drop 1 xs) \<longrightarrow> \<not> sync_stop (drop j (drop 1 xs))"
    using Suc.prems(2) by auto
  have "\<exists>s'. sync_loop ?s ?st = Inr (Z_DATA_ERROR, s',
        ?st\<lparr>inHdrOffs := inHdrOffs ?st + (length (drop 1 xs) - 19)\<rparr>)
     \<and> in_win s' = Win (drop (length (drop 1 xs) - 19) (drop 1 xs))
     \<and> total_in s' mod ULONG_MOD = (total_in ?s + (length (drop 1 xs) - 19)) mod ULONG_MOD
     \<and> out_win s' = out_win ?s \<and> out_data s' = out_data ?s \<and> total_out s' = total_out ?s
     \<and> msg s' = Some ''No flush point found''"
    using Suc.hyps(1) [OF m w later] .
  moreover have "(total_in ?s + (length (drop 1 xs) - 19)) mod ULONG_MOD
      = (total_in s + (length xs - 19)) mod ULONG_MOD"
  proof -
    have e: "length xs - 19 = Suc (length (drop 1 xs) - 19)" using l by simp
    have "(total_in ?s + a) mod ULONG_MOD = (total_in s + Suc a) mod ULONG_MOD" for a
      by (simp add: inSeek_def mod_simps)
    then show ?thesis unfolding e .
  qed
  moreover have "drop (length (drop 1 xs) - 19) (drop 1 xs) = drop (length xs - 19) xs"
  proof -
    have "Suc (length xs - 20) = length xs - 19" using l by simp
    then show ?thesis using l by simp
  qed
  moreover have "inHdrOffs ?st + (length (drop 1 xs) - 19) = inHdrOffs st + (length xs - 19)"
    using l by simp
  ultimately show ?case
    using Suc.prems(1) nf l
    by (simp add: sync_loop_step [of s xs st]) (auto simp add: inSeek_def)
qed

text \<open>
  What \<^verbatim>\<open>fastlzlibDecompressSync\<close> does on a decompressing stream. It returns \<^verbatim>\<open>Z_OK\<close> at
  once, with the stream untouched, when buffered output is pending. Otherwise it returns
  \<^verbatim>\<open>Z_BUF_ERROR\<close> when \<^verbatim>\<open>avail_in < 20\<close>. Otherwise it counts from \<^verbatim>\<open>inHdrOffs = 0\<close> and moves
  \<^verbatim>\<open>next_in\<close> forward byte by byte: if \<open>k\<close> is the first position of the window \<open>xs\<close> with
  20 bytes left at which the scan stops, it returns \<^verbatim>\<open>Z_OK\<close> with \<^verbatim>\<open>next_in\<close> at that
  position (and \<^verbatim>\<open>inHdrOffs = k\<close>); if there is no such position, it returns
  \<^verbatim>\<open>Z_DATA_ERROR\<close>, with 19 bytes left in the window.
\<close>

lemma decompress_sync_scan:
  assumes st: "state s = Some st" and dec: "ZFAST_IS_DECOMPRESSING st"
  shows "(ZFAST_HAS_BUFFERED_OUTPUT st \<longrightarrow> fastlzlibDecompressSync s = Inr (Z_OK, s))
   \<and> (\<not> ZFAST_HAS_BUFFERED_OUTPUT st \<and> avail_in s < 20 \<longrightarrow>
        (\<exists>s'. fastlzlibDecompressSync s = Inr (Z_BUF_ERROR, s')
           \<and> in_win s' = in_win s \<and> state s' = state s))
   \<and> (\<not> ZFAST_HAS_BUFFERED_OUTPUT st \<and> in_win s = Win xs \<and> 20 \<le> length xs
        \<and> k + 20 \<le> length xs \<and> sync_stop (drop k xs) \<and> (\<forall>j<k. \<not> sync_stop (drop j xs)) \<longrightarrow>
        (\<exists>s'. fastlzlibDecompressSync s = Inr (Z_OK, s')
           \<and> in_win s' = Win (drop k xs) \<and> state s' = Some (st\<lparr>inHdrOffs := k\<rparr>)))
   \<and> (\<not> ZFAST_HAS_BUFFERED_OUTPUT st \<and> in_win s = Win xs \<and> 20 \<le> length xs
        \<and> (\<forall>j. j + 20 \<le> length xs \<longrightarrow> \<not> sync_stop (drop j xs)) \<longrightarrow>
        (\<exists>s'. fastlzlibDecompressSync s = Inr (Z_DATA_ERROR, s')
           \<and> in_win s' = Win (drop (length xs - 19) xs)
           \<and> state s' = Some (st\<lparr>inHdrOffs := length xs - 19\<rparr>)))"
proof -
  define st0 where "st0 = (if inHdrOffs st \<noteq> 0 then st\<lparr>inHdrOffs := 0\<rparr> else st)"
  have st0: "st0 = st\<lparr>inHdrOffs := 0\<rparr>" by (simp add: st0_def)
  have S: "\<not> ZFAST_HAS_BUFFERED_OUTPUT st \<Longrightarrow> 20 \<le> avail_in s \<Longrightarrow>
     fastlzlibDecompressSync s =
       (case sync_loop s st0 of
          Inl f \<Rightarrow> Inl f
        | Inr (r, s', st') \<Rightarrow> Inr (r, s'\<lparr>state := Some st'\<rparr>))"
    using st dec by (simp add: fastlzlibDecompressSync_def st0_def HEADER_SIZE_def)
  have a: "ZFAST_HAS_BUFFERED_OUTPUT st \<longrightarrow> fastlzlibDecompressSync s = Inr (Z_OK, s)"
    using st dec by (simp add: fastlzlibDecompressSync_def)
  have b: "\<not> ZFAST_HAS_BUFFERED_OUTPUT st \<and> avail_in s < 20 \<longrightarrow>
        (\<exists>s'. fastlzlibDecompressSync s = Inr (Z_BUF_ERROR, s')
           \<and> in_win s' = in_win s \<and> state s' = state s)"
    using st dec by (simp add: fastlzlibDecompressSync_def HEADER_SIZE_def)
  have c: "\<exists>s'. fastlzlibDecompressSync s = Inr (Z_OK, s')
           \<and> in_win s' = Win (drop k xs) \<and> state s' = Some (st\<lparr>inHdrOffs := k\<rparr>)"
    if "\<not> ZFAST_HAS_BUFFERED_OUTPUT st" "in_win s = Win xs" "20 \<le> length xs"
      "k + 20 \<le> length xs" "sync_stop (drop k xs)" "\<forall>j<k. \<not> sync_stop (drop j xs)"
  proof -
    from sync_loop_found [OF that(2,4,5,6), of st0] obtain s' where
      "sync_loop s st0 = Inr (Z_OK, s', st0\<lparr>inHdrOffs := inHdrOffs st0 + k\<rparr>)"
      "in_win s' = Win (drop k xs)" by blast
    then show ?thesis
      using S [OF that(1)] that(2,3) by (simp add: avail_in_def st0)
  qed
  have d: "\<exists>s'. fastlzlibDecompressSync s = Inr (Z_DATA_ERROR, s')
           \<and> in_win s' = Win (drop (length xs - 19) xs)
           \<and> state s' = Some (st\<lparr>inHdrOffs := length xs - 19\<rparr>)"
    if "\<not> ZFAST_HAS_BUFFERED_OUTPUT st" "in_win s = Win xs" "20 \<le> length xs"
      "\<forall>j. j + 20 \<le> length xs \<longrightarrow> \<not> sync_stop (drop j xs)"
  proof -
    from sync_loop_not_found [OF that(2,4), of st0] obtain s' where
      "sync_loop s st0
         = Inr (Z_DATA_ERROR, s', st0\<lparr>inHdrOffs := inHdrOffs st0 + (length xs - 19)\<rparr>)"
      "in_win s' = Win (drop (length xs - 19) xs)" by blast
    then show ?thesis
      using S [OF that(1)] that(2,3) by (simp add: avail_in_def st0)
  qed
  from a b c d show ?thesis by blast
qed

lemma READ_32_header:
  "READ_32 (fastlz_write_header t b c orig @ rest) 12 = of_nat orig"
  "READ_32 (fastlz_write_header t b c orig @ rest) 16 = of_nat b"
  using READ_32_WRITE_32 [of "BLOCK_MAGIC @ WRITE_8 (of_nat t) @ WRITE_32 (of_nat c)" 12
      "of_nat orig" "WRITE_32 (of_nat b) @ rest"]
    READ_32_WRITE_32 [of "BLOCK_MAGIC @ WRITE_8 (of_nat t) @ WRITE_32 (of_nat c)
      @ WRITE_32 (of_nat orig)" 16 "of_nat b" rest]
  by (simp_all add: fastlz_write_header_def BLOCK_MAGIC_def WRITE_8_def length_WRITE_32)

lemma magic_header: "take 7 (fastlz_write_header t b c orig @ rest) = BLOCK_MAGIC"
  by (simp add: fastlz_write_header_def BLOCK_MAGIC_def)

lemma sync_stop_header:
  "sync_stop (fastlz_write_header t b c orig @ rest) \<longleftrightarrow> orig mod 2 ^ 32 \<noteq> 0"
  unfolding sync_stop_def magic_header READ_32_header
  by (simp add: word_of_nat_eq_0_iff dvd_eq_mod_eq_0)


lemma decompress_sync_scan_examples:
  "pending pending_stream
   \<and> fastlzlibDecompressSync pending_stream = Inr (Z_OK, pending_stream)
   \<and> \<not> pending (feed (decompressor 32768) hello [])
   \<and> avail_in (feed (decompressor 32768) hello []) < 20
   \<and> status_of (fastlzlibDecompressSync (feed (decompressor 32768) hello [])) = Some Z_BUF_ERROR
   \<and> 2 + 20 \<le> length garbled \<and> sync_stop (drop 2 garbled)
   \<and> \<not> sync_stop (drop 0 garbled) \<and> \<not> sync_stop (drop 1 garbled)
   \<and> status_of (fastlzlibDecompressSync (feed (decompressor 32768) garbled [])) = Some Z_OK
   \<and> in_win (stream_of (fastlzlibDecompressSync (feed (decompressor 32768) garbled [])))
        = Win (fastlz_write_header BLOCK_TYPE_RAW 32768 5 5 @ hello)
   \<and> length (hello @ hello @ hello @ hello) = 20
   \<and> \<not> sync_stop (hello @ hello @ hello @ hello)
   \<and> status_of (fastlzlibDecompressSync (feed (decompressor 32768) (hello @ hello @ hello @ hello) []))
        = Some Z_DATA_ERROR
   \<and> in_win (stream_of (fastlzlibDecompressSync
          (feed (decompressor 32768) (hello @ hello @ hello @ hello) [])))
        = Win (drop 1 (hello @ hello @ hello @ hello))"
proof -
  have dec: "ZFAST_IS_DECOMPRESSING pending_state"
    by (simp add: pending_state_def macro_defs const_defs)
  have p: "pending pending_stream" "state pending_stream = Some pending_state"
    "ZFAST_HAS_BUFFERED_OUTPUT pending_state"
    by (simp_all add: pending_def pending_stream_eq pending_state_def macro_defs)
  have A: "fastlzlibDecompressSync pending_stream = Inr (Z_OK, pending_stream)"
    using decompress_sync_scan [OF p(2) dec] p(3) by simp
  have fresh: "state (feed (decompressor 32768) w []) = state (decompressor 32768)"
    "in_win (feed (decompressor 32768) w []) = Win w" for w
    by (simp_all add: feed_def)
  obtain st where st: "state (decompressor 32768) = Some st"
    and dec': "ZFAST_IS_DECOMPRESSING st" and nb: "\<not> ZFAST_HAS_BUFFERED_OUTPUT st"
    by (simp add: decompressor_eq macro_defs const_defs)
  have np: "\<not> pending (feed (decompressor 32768) w [])" for w
    using st nb by (simp add: pending_def fresh)
  have sth: "state (feed (decompressor 32768) w []) = Some st" for w
    using st by (simp add: fresh)
  have B': "avail_in (feed (decompressor 32768) hello []) < 20"
    by (simp add: avail_in_def fresh hello_def)
  from decompress_sync_scan [OF sth [of hello] dec'] nb B'
  obtain s0 where "fastlzlibDecompressSync (feed (decompressor 32768) hello []) = Inr (Z_BUF_ERROR, s0)"
    by blast
  then have B: "status_of (fastlzlibDecompressSync (feed (decompressor 32768) hello [])) = Some Z_BUF_ERROR"
    by simp
  have l: "length garbled = 27"
    using length_write_header [of BLOCK_TYPE_RAW 32768 5 5]
    by (simp add: garbled_def hello_def HEADER_SIZE_def)
  have d2: "drop 2 garbled = fastlz_write_header BLOCK_TYPE_RAW 32768 5 5 @ hello"
    by (simp add: garbled_def)
  have sp: "sync_stop (drop 2 garbled)"
    unfolding d2 by (simp add: sync_stop_header)
  have n0: "\<not> sync_stop (drop 0 garbled)"
    by (simp add: sync_stop_def garbled_def fastlz_write_header_def BLOCK_MAGIC_def)
  have n1: "\<not> sync_stop (drop 1 garbled)"
    by (simp add: sync_stop_def garbled_def fastlz_write_header_def BLOCK_MAGIC_def)
  have nf: "\<forall>j<2. \<not> sync_stop (drop j garbled)"
    using n0 n1 by (auto simp: less_Suc_eq numeral_2_eq_2)
  from decompress_sync_scan [OF sth [of garbled] dec', of garbled 2] nb l sp nf
  obtain s' where C: "fastlzlibDecompressSync (feed (decompressor 32768) garbled []) = Inr (Z_OK, s')"
    "in_win s' = Win (drop 2 garbled)"
    by (auto simp: fresh)
  let ?h = "hello @ hello @ hello @ hello"
  have lh: "length ?h = 20" by (simp add: hello_def)
  have nh: "\<not> sync_stop ?h"
    by (simp add: sync_stop_def hello_def BLOCK_MAGIC_def)
  have nfh: "\<forall>j. j + 20 \<le> length ?h \<longrightarrow> \<not> sync_stop (drop j ?h)"
    using nh lh by simp
  from decompress_sync_scan [OF sth [of ?h] dec', of ?h] nb lh nfh
  obtain s'' where D: "fastlzlibDecompressSync (feed (decompressor 32768) ?h []) = Inr (Z_DATA_ERROR, s'')"
    "in_win s'' = Win (drop (length ?h - 19) ?h)"
    by (auto simp: fresh)
  show ?thesis
    using p(1) A np B B' l sp n0 n1 C d2 lh nh D by simp
qed


subsection \<open>The round trip\<close>

text \<open>The header loop on a valid input window: it moves as many bytes as the header still
  needs, or as there are.\<close>

lemma take_Suc_update: "h < length xs \<Longrightarrow> take (Suc h) (xs[h := b]) = take h xs @ [b]"
  by (simp add: take_Suc_conv_app_nth)

lemma header_loop_Win:
  "in_win s = Win w \<Longrightarrow> inHdrOffs st = h \<Longrightarrow> h \<le> 20 \<Longrightarrow> length (inHdr st) = 20 \<Longrightarrow>
   \<exists>s' st'. header_loop s st = (s', st')
     \<and> in_win s' = Win (drop (min (20 - h) (length w)) w)
     \<and> s' = s\<lparr>in_win := in_win s', total_in := total_in s'\<rparr>
     \<and> st' = st\<lparr>inHdr := take h (inHdr st) @ take (min (20 - h) (length w)) w
                           @ drop (h + min (20 - h) (length w)) (inHdr st),
                 inHdrOffs := h + min (20 - h) (length w)\<rparr>"
proof (induction w arbitrary: s st h)
  case Nil
  then show ?case
    by (subst header_loop.simps) simp
next
  case (Cons b w)
  show ?case
  proof (cases "h < 20")
    case False
    with Cons.prems have "h = 20" by simp
    with Cons.prems show ?thesis
      by (subst header_loop.simps) (simp add: HEADER_SIZE_def)
  next
    case True
    let ?s = "inSeek s 1"
    let ?st = "st\<lparr>inHdr := (inHdr st)[inHdrOffs st := b], inHdrOffs := inHdrOffs st + 1\<rparr>"
    have hl: "header_loop s st = header_loop ?s ?st"
      using Cons.prems True by (subst header_loop.simps) (simp add: HEADER_SIZE_def)
    have w: "in_win ?s = Win w" using Cons.prems by (simp add: inSeek_def)
    have h1: "inHdrOffs ?st = Suc h" using Cons.prems by simp
    have l: "length (inHdr ?st) = 20" using Cons.prems by simp
    from Cons.IH [OF w h1 _ l] True obtain s' st' where r: "header_loop ?s ?st = (s', st')"
      "in_win s' = Win (drop (min (20 - Suc h) (length w)) w)"
      "s' = ?s\<lparr>in_win := in_win s', total_in := total_in s'\<rparr>"
      "st' = ?st\<lparr>inHdr := take (Suc h) (inHdr ?st) @ take (min (20 - Suc h) (length w)) w
                           @ drop (Suc h + min (20 - Suc h) (length w)) (inHdr ?st),
                 inHdrOffs := Suc h + min (20 - Suc h) (length w)\<rparr>"
      by auto
    have m: "min (20 - h) (length (b # w)) = Suc (min (20 - Suc h) (length w))"
      using True by simp
    have t: "take (Suc h) (inHdr ?st) = take h (inHdr st) @ [b]"
      using Cons.prems True by (simp add: take_Suc_update)
    have d: "drop (Suc h + min (20 - Suc h) (length w)) (inHdr ?st)
        = drop (h + Suc (min (20 - Suc h) (length w))) (inHdr st)"
      using Cons.prems by simp
    show ?thesis
      unfolding hl m
      using r(1,2) r(3) r(4) t d
      by (simp add: inSeek_def)
  qed
qed

text \<open>What \<^verbatim>\<open>fastlz_compress_hdr\<close> writes when the compressor keeps to the expansion bound.\<close>

lemma length_frame:
  "length (frame cmp l bs x)
     = 20 + (if length x > MIN_BLOCK_SIZE then length (cmp l x) else length x)"
  using length_write_header by (simp add: frame_def HEADER_SIZE_def)

lemma length_eof_marker: "length (eof_marker bs) = 20"
  using length_write_header by (simp add: eof_marker_def HEADER_SIZE_def)

lemma compress_hdr_frame:
  assumes be: "bounded_expansion cmp bs" and l: "l = 1 \<or> l = 2" and xb: "length x \<le> bs"
    and room: "length x + length x div 10 + 40 \<le> out_len"
  shows "fastlz_compress_hdr cmp x out_len bs l flush =
           Inr ((if x = [] then [] else frame cmp l bs x)
                @ (if flush = Z_FINISH then eof_marker bs else []))"
proof (cases "x = []")
  case True
  with room length_write_header [of BLOCK_TYPE_COMPRESSED bs 0 0] show ?thesis
    by (simp add: fastlz_compress_hdr_def eof_marker_def Let_def HEADER_SIZE_def)
next
  case False
  show ?thesis
  proof (cases "length x > MIN_BLOCK_SIZE")
    case True
    with be l xb have c: "length (cmp l x) \<le> length x + length x div 10"
      by (auto simp: bounded_expansion_def EXPANSION_RATIO_def)
    have "(length (cmp l x) + HEADER_SIZE * 2) mod 2 ^ 32 \<le> length (cmp l x) + 40"
      by (simp add: HEADER_SIZE_def)
    with c room have a1: "(length (cmp l x) + HEADER_SIZE * 2) mod 2 ^ 32 \<le> out_len"
      by linarith
    have a2: "length (frame cmp l bs x @ eof_marker bs) \<le> out_len"
      "length (frame cmp l bs x) \<le> out_len"
      using c room True by (simp_all add: length_frame length_eof_marker)
    show ?thesis
      using False True a1 a2
      by (simp add: fastlz_compress_hdr_def Let_def frame_def eof_marker_def)
  next
    case small: False
    have "(length x + HEADER_SIZE * 2) mod 2 ^ 32 \<le> length x + 40"
      by (simp add: HEADER_SIZE_def)
    with room have a1: "(length x + HEADER_SIZE * 2) mod 2 ^ 32 \<le> out_len"
      by linarith
    have a2: "length (frame cmp l bs x @ eof_marker bs) \<le> out_len"
      "length (frame cmp l bs x) \<le> out_len"
      using room small by (simp_all add: length_frame length_eof_marker)
    show ?thesis
      using False small a1 a2
      by (simp add: fastlz_compress_hdr_def Let_def frame_def eof_marker_def)
  qed
qed

lemma length_compress_hdr_bytes:
  assumes be: "bounded_expansion cmp bs" and l: "l = 1 \<or> l = 2" and xb: "length x \<le> bs"
  shows "length ((if x = [] then [] else frame cmp l bs x)
                @ (if flush = Z_FINISH then eof_marker bs else []))
           \<le> length x + length x div 10 + 40"
proof (cases "length x > MIN_BLOCK_SIZE")
  case True
  with be l xb have c: "length (cmp l x) \<le> length x + length x div 10"
    by (auto simp: bounded_expansion_def EXPANSION_RATIO_def)
  then show ?thesis using True by (simp add: length_frame length_eof_marker)
next
  case False
  then show ?thesis by (simp add: length_frame length_eof_marker)
qed

lemma fastlzlibProcess_buffered:
  assumes "\<not> (is_null (in_win s) \<and> \<not> ZFAST_INPUT_IS_EMPTY s)"
    and "\<not> (is_null (out_win s) \<and> \<not> ZFAST_OUTPUT_IS_FULL s)"
    and "state s = Some st" and "ZFAST_HAS_BUFFERED_OUTPUT st"
  shows "fastlzlibProcess cmp dcmp s flush may_buffer =
    (case process_drain s st of (s', st') \<Rightarrow> Inr (Z_OK, s'\<lparr>state := Some st'\<rparr>))"
  using assms by (auto simp: fastlzlibProcess_def)

text \<open>Draining, with the state it leaves.\<close>

lemma process_drain_Win:
  assumes out: "out_win s = Win room" and buf: "outBuffOffs st < dec_size st"
    and cap: "dec_size st \<le> length (outBuff st)"
  shows "\<exists>s'. process_drain s st
           = (s', st\<lparr>outBuffOffs := outBuffOffs st + min (dec_size st - outBuffOffs st) (length room)\<rparr>)
     \<and> in_win s' = in_win s
     \<and> out_data s' = out_data s
          @ take (min (dec_size st - outBuffOffs st) (length room)) (drop (outBuffOffs st) (outBuff st))"
proof -
  define n where "n = min (dec_size st - outBuffOffs st) (length room)"
  have sz: "(if dec_size st - outBuffOffs st > avail_out s then avail_out s
                  else dec_size st - outBuffOffs st) = n"
    using out by (simp add: n_def min_def avail_out_def)
  show ?thesis
  proof (cases "n = 0")
    case True
    then show ?thesis
      using sz by (simp add: process_drain_def n_def [symmetric])
  next
    case False
    define bs where "bs = take n (drop (outBuffOffs st) (outBuff st))"
    have lbs: "length bs = n"
      using buf cap by (simp add: bs_def n_def)
    have nroom: "n \<le> length room" by (simp add: n_def)
    have "process_drain s st = (outSeek (memcpy_out s bs) n, st\<lparr>outBuffOffs := outBuffOffs st + n\<rparr>)"
      using sz False by (simp add: process_drain_def bs_def)
    moreover have "out_data (outSeek (memcpy_out s bs) n) = out_data s @ bs"
      using out lbs nroom by (simp add: outSeek_def memcpy_out_def)
    moreover have "in_win (outSeek (memcpy_out s bs) n) = in_win s"
      by (simp add: outSeek_def memcpy_out_def)
    ultimately show ?thesis
      by (simp add: n_def [symmetric] bs_def)
  qed
qed

lemma pending_out_drain:
  assumes buf: "outBuffOffs st < dec_size st" and cap: "dec_size st \<le> length (outBuff st)"
    and n: "n \<le> dec_size st - outBuffOffs st"
  shows "take n (drop (outBuffOffs st) (outBuff st))
           @ pending_out (st\<lparr>outBuffOffs := outBuffOffs st + n\<rparr>) = pending_out st"
proof -
  let ?d = "drop (outBuffOffs st) (outBuff st)"
  let ?m = "dec_size st - outBuffOffs st"
  have "take n ?d @ take (?m - n) (drop n ?d) = take ?m ?d"
    using n by (metis le_add_diff_inverse take_add)
  moreover have "pending_out (st\<lparr>outBuffOffs := outBuffOffs st + n\<rparr>) = take (?m - n) (drop n ?d)"
    using n buf by (auto simp: pending_out_def add.commute)
  ultimately show ?thesis using buf by (simp add: pending_out_def)
qed

text \<open>The header, input and block sections of a compressing call.\<close>

lemma process_header_compress:
  assumes c: "ZFAST_IS_COMPRESSING st" and w: "in_win s = Win w" and b: "block_size st = bs"
    and nowrap: "bs + bs div 10 + 40 < 2 ^ 32"
    and fl: "flush = Z_NO_FLUSH \<or> flush = Z_FINISH"
  shows "process_header s st flush True =
     (let n = (if bs > length w \<and> flush = Z_FINISH then length w else bs);
          st1 = st\<lparr>block_type := BLOCK_TYPE_COMPRESSED, str_size := n, dec_size := 0,
                   outBuffOffs := 0\<rparr>
      in if n = 0 then Returns Z_STREAM_END s st1
         else if length w \<ge> n then Goes (inSeek s n, st1, Some (take n w))
         else Goes (s, st1\<lparr>inBuffOffs := 0\<rparr>, None))"
proof -
  have d: "\<not> ZFAST_IS_DECOMPRESSING st" using c by (simp add: ZFAST_IS_DECOMPRESSING_def)
  have bb: "BUFFER_BLOCK_SIZE (st\<lparr>block_type := t, str_size := a, dec_size := 0, outBuffOffs := 0\<rparr>)
      = bs + bs div 10 + 40" for t a
    using b nowrap by (simp add: BUFFER_BLOCK_SIZE_def BLOCK_SIZE_def const_defs)
  show ?thesis
    using fl w b
    by (auto simp: process_header_def d compress_header_def compress_header_apply_def Let_def
        bb BLOCK_SIZE_def avail_in_def const_defs)
qed

lemma memcpy_at_take:
  "i \<le> length dst \<Longrightarrow> take (i + length src) (memcpy_at dst i src) = take i dst @ src"
  by (simp add: memcpy_at_def)

lemma process_input_None:
  assumes w: "in_win s = Win w" and i: "inBuffOffs st = i" and c: "str_size st = c"
    and ic: "i < c" and cap: "i \<le> length (inBuff st)" and n: "n = min (c - i) (length w)"
  shows "\<exists>s1 st1 r. process_input s st None flush = (s1, st1, r)
     \<and> in_win s1 = Win (drop n w) \<and> out_win s1 = out_win s \<and> out_data s1 = out_data s
     \<and> take (i + n) (inBuff st1) = take i (inBuff st) @ take n w
     \<and> i + n \<le> length (inBuff st1)
     \<and> (if i + n = c
         then st1 = st\<lparr>inBuff := inBuff st1, inBuffOffs := c\<rparr> \<and> r = Some (take c (inBuff st1))
         else if flush \<noteq> Z_NO_FLUSH
         then st1 = st\<lparr>inBuff := inBuff st1, inBuffOffs := i + n, str_size := i + n\<rparr>
              \<and> r = Some (take (i + n) (inBuff st1))
         else st1 = st\<lparr>inBuff := inBuff st1, inBuffOffs := i + n\<rparr> \<and> r = None)"
proof -
  have sz: "(if str_size st - inBuffOffs st > avail_in s then avail_in s
             else str_size st - inBuffOffs st) = n"
    using w i c n by (simp add: avail_in_def min_def)
  show ?thesis
  proof (cases "n = 0")
    case True
    with n ic have nc: "i \<noteq> c" "i + n \<noteq> c" by auto
    show ?thesis
      using True nc i c ic sz cap
      by (simp add: process_input_def w)
  next
    case False
    define ib where "ib = memcpy_at (inBuff st) i (take n w)"
    have ln: "length (take n w) = n" using n by simp
    have tk: "take (i + n) ib = take i (inBuff st) @ take n w"
      using memcpy_at_take [OF cap, of "take n w"] ln by (simp add: ib_def)
    have len: "i + n \<le> length ib"
      using cap ln by (simp add: ib_def memcpy_at_def)
    have tkc: "i + n = c \<Longrightarrow> take c ib = take i (inBuff st) @ take n w"
      using tk by simp
    show ?thesis
      using False i c ic sz w tk len tkc
      by (simp add: process_input_def Let_def inSeek_def ib_def [symmetric])
  qed
qed

lemma compress_block_emits:
  assumes be: "bounded_expansion cmp bs" and xs: "str_size st = length x" and xb: "length x \<le> bs"
    and b: "block_size st = bs" and big: "bs \<le> 2 ^ 20" and out: "out_win s = Win room"
    and d0: "dec_size st = 0"
  shows "\<exists>s' st'. compress_block cmp s st x fl = Goes (s', st')
     \<and> in_win s' = in_win s
     \<and> out_data s' @ pending_out st'
          = out_data s @ (if x = [] then [] else frame cmp (zlibLevelToFastlz (level st)) bs x)
              @ (if fl = Z_FINISH then eof_marker bs else [])
     \<and> (ZFAST_HAS_BUFFERED_OUTPUT st' \<longrightarrow> dec_size st' \<le> length (outBuff st'))
     \<and> st' = st\<lparr>outBuff := outBuff st', dec_size := dec_size st', outBuffOffs := 0, str_size := 0\<rparr>
     \<and> length (pending_out st') \<le> length x + length x div 10 + 40"
proof -
  define l where "l = zlibLevelToFastlz (level st)"
  have l: "l = 1 \<or> l = 2" by (simp add: l_def zlibLevelToFastlz_def)
  define bytes where "bytes = (if x = [] then [] else frame cmp l bs x)
              @ (if fl = Z_FINISH then eof_marker bs else [])"
  have lb: "length bytes \<le> length x + length x div 10 + 40"
    unfolding bytes_def by (rule length_compress_hdr_bytes [OF be l xb])
  have x20: "length x \<le> 2 ^ 20" using xb big by simp
  have est: "(length x + length x div EXPANSION_RATIO + EXPANSION_SECURITY) mod 2 ^ 32
       = length x + length x div 10 + 66"
    using x20 by (simp add: const_defs)
  have bbs: "BUFFER_BLOCK_SIZE st = bs + bs div 10 + 40"
    using b big by (simp add: BUFFER_BLOCK_SIZE_def BLOCK_SIZE_def const_defs)
  have h1: "fastlz_compress_hdr cmp x (length x + length x div 10 + 66) bs l fl = Inr bytes"
    unfolding bytes_def by (rule compress_hdr_frame [OF be l xb]) simp
  have mono: "length x + length x div 10 \<le> bs + bs div 10"
    using xb by (simp add: add_mono div_le_mono)
  have h2: "fastlz_compress_hdr cmp x (bs + bs div 10 + 40) bs l fl = Inr bytes"
    unfolding bytes_def by (rule compress_hdr_frame [OF be l xb]) (use mono in simp)
  show ?thesis
  proof (cases "length room \<ge> length x + length x div 10 + 66")
    case True
    have lr: "length bytes \<le> length room" using lb True by simp
    have "compress_block cmp s st x fl
        = Goes (outSeek (memcpy_out s bytes) (length bytes), st\<lparr>outBuffOffs := dec_size st, str_size := 0\<rparr>)"
      unfolding compress_block_def Let_def xs est
      using True out h1 b
      by (simp add: avail_out_def BLOCK_SIZE_def l_def)
    moreover have "out_data (outSeek (memcpy_out s bytes) (length bytes)) = out_data s @ bytes"
      using out lr by (simp add: outSeek_def memcpy_out_def)
    moreover have "in_win (outSeek (memcpy_out s bytes) (length bytes)) = in_win s"
      by (simp add: outSeek_def memcpy_out_def)
    ultimately show ?thesis
      using d0 by (simp add: pending_out_def bytes_def l_def ZFAST_HAS_BUFFERED_OUTPUT_def)
  next
    case False
    have "compress_block cmp s st x fl
        = Goes (s, st\<lparr>outBuff := memcpy_at (outBuff st) 0 bytes, dec_size := length bytes,
                        outBuffOffs := 0, str_size := 0\<rparr>)"
      unfolding compress_block_def Let_def xs est
      using False out h2 b bbs
      by (simp add: avail_out_def BLOCK_SIZE_def l_def)
    moreover have "pending_out (st\<lparr>outBuff := memcpy_at (outBuff st) 0 bytes, dec_size := length bytes,
                        outBuffOffs := 0, str_size := 0\<rparr>) = bytes"
      by (simp add: pending_out_def memcpy_at_def)
    ultimately show ?thesis
      using lb by (simp add: bytes_def l_def ZFAST_HAS_BUFFERED_OUTPUT_def memcpy_at_def)
  qed
qed

text \<open>The end of a compressing call, from the complete block on.\<close>

lemma wire_snoc:
  "wire cmp l bs (blocks @ [x]) e
     = wire cmp l bs blocks False @ frame cmp l bs x @ (if e then eof_marker bs else [])"
  by (simp add: wire_def)

lemma wire_eof:
  "wire cmp l bs blocks e = wire cmp l bs blocks False @ (if e then eof_marker bs else [])"
  by (simp add: wire_def)

lemma compress_tail:
  assumes be: "bounded_expansion cmp bs" and big: "bs \<le> 2 ^ 20"
    and c: "ZFAST_IS_COMPRESSING st2" and b: "block_size st2 = bs"
    and xs: "str_size st2 = length x" and xb: "length x \<le> bs" and d0: "dec_size st2 = 0"
    and w2: "in_win s2 = Win w2" and room: "out_win s2 = Win room"
    and od: "out_data s2 = wire cmp (zlibLevelToFastlz (level st2)) bs blocks False"
    and wf: "list_all (\<lambda>b. b \<noteq> [] \<and> length b \<le> bs) blocks"
    and fl: "flush = Z_NO_FLUSH \<or> flush = Z_FINISH"
  shows "\<exists>r s' e'.
     (case process_block cmp dcmp s2 st2 x flush of
        Fails f \<Rightarrow> Inl f
      | Returns r s' st' \<Rightarrow> Inr (r, s'\<lparr>state := Some st'\<rparr>)
      | Goes (s3, st3) \<Rightarrow>
          Inr (if flush = Z_FINISH \<and> ZFAST_INPUT_IS_EMPTY s3 \<and> \<not> ZFAST_HAS_BUFFERED_OUTPUT st3
               then Z_STREAM_END else Z_OK,
               s3\<lparr>state := Some st3\<rparr>)) = Inr (r, s')
     \<and> (r = Z_OK \<or> r = Z_STREAM_END)
     \<and> comp_inv cmp bs s' (concat blocks @ x @ w2) e'
     \<and> (e' \<longrightarrow> flush = Z_FINISH)
     \<and> (r = Z_STREAM_END \<longrightarrow> comp_final s' \<and> flush = Z_FINISH)
     \<and> comp_measure bs s' \<le> bs + bs div 10 + 40 + (bs + bs div 10 + 41) * length w2"
proof -
  define l where "l = zlibLevelToFastlz (level st2)"
  define fn where "fn = (if flush = Z_FINISH \<and> \<not> ZFAST_INPUT_IS_EMPTY s2 then Z_NO_FLUSH else flush)"
  define e' where "e' \<longleftrightarrow> fn = Z_FINISH"
  have nd: "\<not> ZFAST_IS_DECOMPRESSING st2" using c by (simp add: ZFAST_IS_DECOMPRESSING_def)
  have pb: "process_block cmp dcmp s2 st2 x flush = compress_block cmp s2 st2 x fn"
    by (simp add: process_block_def nd fn_def Let_def)
  from compress_block_emits [OF be xs xb b big room d0, of fn]
  obtain s3 st3 where cb: "compress_block cmp s2 st2 x fn = Goes (s3, st3)"
    and in3: "in_win s3 = in_win s2"
    and out3: "out_data s3 @ pending_out st3
          = out_data s2 @ (if x = [] then [] else frame cmp l bs x)
              @ (if fn = Z_FINISH then eof_marker bs else [])"
    and cap3: "ZFAST_HAS_BUFFERED_OUTPUT st3 \<longrightarrow> dec_size st3 \<le> length (outBuff st3)"
    and st3: "st3 = st2\<lparr>outBuff := outBuff st3, dec_size := dec_size st3, outBuffOffs := 0,
                        str_size := 0\<rparr>"
    and pend3: "length (pending_out st3) \<le> length x + length x div 10 + 40"
    unfolding l_def by blast
  define r where "r = (if flush = Z_FINISH \<and> ZFAST_INPUT_IS_EMPTY s3 \<and> \<not> ZFAST_HAS_BUFFERED_OUTPUT st3
               then Z_STREAM_END else Z_OK)"
  define blocks' where "blocks' = (if x = [] then blocks else blocks @ [x])"
  have fields: "ZFAST_IS_COMPRESSING st3" "block_size st3 = bs" "str_size st3 = 0"
    "level st3 = level st2"
    using c b by (subst st3, simp add: ZFAST_IS_COMPRESSING_def)+
  have wf': "list_all (\<lambda>b. b \<noteq> [] \<and> length b \<le> bs) blocks'"
    using wf xb by (simp add: blocks'_def)
  have wire': "out_data s3 @ pending_out st3 = wire cmp l bs blocks' e'"
    using out3 od
    by (simp add: blocks'_def e'_def l_def wire_snoc) (simp add: wire_def)
  have cons: "concat blocks' @ staged st3 @ window_bytes (in_win s3) = concat blocks @ x @ w2"
    using fields(3) in3 w2 by (simp add: blocks'_def staged_def)
  have ewin: "e' \<Longrightarrow> w2 = []"
    using w2 by (auto simp: e'_def fn_def ZFAST_INPUT_IS_EMPTY_def avail_in_def const_defs split: if_splits)
  have efl: "e' \<Longrightarrow> flush = Z_FINISH"
    by (auto simp: e'_def fn_def const_defs split: if_splits)
  have inv: "comp_inv cmp bs (s3\<lparr>state := Some st3\<rparr>) (concat blocks @ x @ w2) e'"
    unfolding comp_inv_def
    apply (rule exI [of _ st3], rule exI [of _ blocks'])
    using fields wf' wire' cons cap3 ewin in3 w2
    by (simp add: l_def)
  have fin: "r = Z_STREAM_END \<Longrightarrow> comp_final (s3\<lparr>state := Some st3\<rparr>)"
    using fields(3) in3 w2
    by (auto simp: r_def comp_final_def ZFAST_INPUT_IS_EMPTY_def avail_in_def const_defs
        split: if_splits)
  have fin2: "r = Z_STREAM_END \<Longrightarrow> flush = Z_FINISH"
    by (auto simp: r_def const_defs split: if_splits)
  have rr: "r = Z_OK \<or> r = Z_STREAM_END" by (simp add: r_def)
  have eq: "(case process_block cmp dcmp s2 st2 x flush of
        Fails f \<Rightarrow> Inl f
      | Returns r s' st' \<Rightarrow> Inr (r, s'\<lparr>state := Some st'\<rparr>)
      | Goes (s3, st3) \<Rightarrow>
          Inr (if flush = Z_FINISH \<and> ZFAST_INPUT_IS_EMPTY s3 \<and> \<not> ZFAST_HAS_BUFFERED_OUTPUT st3
               then Z_STREAM_END else Z_OK,
               s3\<lparr>state := Some st3\<rparr>)) = Inr (r, s3\<lparr>state := Some st3\<rparr>)"
    by (simp add: pb cb r_def)
  have mono: "length x + length x div 10 \<le> bs + bs div 10"
    using xb by (simp add: add_mono div_le_mono)
  have ms: "comp_measure bs (s3\<lparr>state := Some st3\<rparr>)
      \<le> bs + bs div 10 + 40 + (bs + bs div 10 + 41) * length w2"
    using pend3 mono fields(3) in3 w2 by (simp add: comp_measure_def)
  show ?thesis
    unfolding eq
    apply (intro exI [of _ r] exI [of _ "s3\<lparr>state := Some st3\<rparr>"] exI [of _ e'])
    using inv fin fin2 rr efl ms by blast
qed

text \<open>One compressing call keeps the invariant; a call with \<^verbatim>\<open>Z_FINISH\<close>, no input and room for
  output that returns \<^verbatim>\<open>Z_OK\<close> brings the measure down.\<close>

lemma compress_step:
  assumes inv: "comp_inv cmp bs s supplied e"
    and be: "bounded_expansion cmp bs" and pos: "0 < bs" and big: "bs \<le> 2 ^ 20"
    and fl: "flush = Z_NO_FLUSH \<or> flush = Z_FINISH"
    and after: "e \<Longrightarrow> extra = [] \<and> flush = Z_FINISH"
  shows "\<exists>r s' e'. fastlzlibCompress cmp dcmp (offer s extra room) flush = Inr (r, s')
     \<and> (r = Z_OK \<or> r = Z_STREAM_END)
     \<and> comp_inv cmp bs s' (supplied @ extra) e'
     \<and> (e' \<longrightarrow> e \<or> flush = Z_FINISH)
     \<and> (r = Z_STREAM_END \<longrightarrow> comp_final s' \<and> flush = Z_FINISH)
     \<and> (flush = Z_FINISH \<and> extra = [] \<and> room \<noteq> [] \<and> r = Z_OK
          \<longrightarrow> comp_measure bs s' < comp_measure bs s)"
proof -
  from inv obtain st blocks where st: "state s = Some st" and c: "ZFAST_IS_COMPRESSING st"
    and b: "block_size st = bs"
    and wf: "list_all (\<lambda>b. b \<noteq> [] \<and> length b \<le> bs) blocks"
    and od: "out_data s @ pending_out st = wire cmp (zlibLevelToFastlz (level st)) bs blocks e"
    and sup: "concat blocks @ staged st @ window_bytes (in_win s) = supplied"
    and stg0: "if str_size st = 0 then True
            else str_size st = bs \<and> inBuffOffs st < bs \<and> inBuffOffs st \<le> length (inBuff st)
                 \<and> dec_size st = 0 \<and> outBuffOffs st = 0"
    and cap0: "if ZFAST_HAS_BUFFERED_OUTPUT st then dec_size st \<le> length (outBuff st) else True"
    and ee0: "if e then str_size st = 0 \<and> window_bytes (in_win s) = [] else True"
    unfolding comp_inv_def by blast
  have stg: "str_size st \<noteq> 0 \<Longrightarrow> str_size st = bs \<and> inBuffOffs st < bs
                 \<and> inBuffOffs st \<le> length (inBuff st) \<and> dec_size st = 0 \<and> outBuffOffs st = 0"
    using stg0 by (simp split: if_splits)
  have cap: "ZFAST_HAS_BUFFERED_OUTPUT st \<Longrightarrow> dec_size st \<le> length (outBuff st)"
    using cap0 by (simp split: if_splits)
  have ee: "e \<Longrightarrow> str_size st = 0 \<and> window_bytes (in_win s) = []"
    using ee0 by (simp split: if_splits)
  define l where "l = zlibLevelToFastlz (level st)"
  define s0 where "s0 = offer s extra room"
  define w where "w = window_bytes (in_win s) @ extra"
  have in0: "in_win s0 = Win w" and out0: "out_win s0 = Win room" and st0: "state s0 = Some st"
    and od0: "out_data s0 = out_data s"
    using st by (simp_all add: s0_def w_def offer_def)
  have sup': "concat blocks @ staged st @ w = supplied @ extra"
    using sup by (simp add: w_def)
  have ew: "e \<Longrightarrow> w = []" using ee after by (simp add: w_def)
  define K where "K = bs + bs div 10 + 41"
  have ms: "comp_measure bs s
      = length (pending_out st) + K * (length (window_bytes (in_win s))
          + (if str_size st = 0 then 0 else 1))"
    using st by (simp add: comp_measure_def K_def)
  have wx: "extra = [] \<Longrightarrow> window_bytes (in_win s) = w" by (simp add: w_def)
  have nowrap: "bs + bs div 10 + 40 < 2 ^ 32" using big by simp
  have sane: "\<not> (is_null (in_win s0) \<and> \<not> ZFAST_INPUT_IS_EMPTY s0)"
     "\<not> (is_null (out_win s0) \<and> \<not> ZFAST_OUTPUT_IS_FULL s0)"
    using in0 out0 by simp_all
  have FC: "fastlzlibCompress cmp dcmp s0 flush = fastlzlibProcess cmp dcmp s0 flush True"
    using st0 c by (simp add: fastlzlibCompress_def fastlzlibCompress2_def)
  show ?thesis
  proof (cases "ZFAST_HAS_BUFFERED_OUTPUT st")
    case True
    then have buf: "outBuffOffs st < dec_size st" by (simp add: ZFAST_HAS_BUFFERED_OUTPUT_def)
    have s0z: "str_size st = 0" using stg buf by auto
    define n where "n = min (dec_size st - outBuffOffs st) (length room)"
    define st' where "st' = st\<lparr>outBuffOffs := outBuffOffs st + n\<rparr>"
    from process_drain_Win [OF out0 buf cap [OF True]] obtain s1 where
      d: "process_drain s0 st = (s1, st')" and in1: "in_win s1 = in_win s0"
      and od1: "out_data s1 = out_data s0 @ take n (drop (outBuffOffs st) (outBuff st))"
      unfolding n_def st'_def by blast
    have P: "fastlzlibProcess cmp dcmp s0 flush True = Inr (Z_OK, s1\<lparr>state := Some st'\<rparr>)"
      using fastlzlibProcess_buffered [OF sane st0 True, of cmp dcmp flush True] d by simp
    have po: "take n (drop (outBuffOffs st) (outBuff st)) @ pending_out st' = pending_out st"
      unfolding st'_def by (rule pending_out_drain [OF buf cap [OF True]]) (simp add: n_def)
    have "comp_inv cmp bs (s1\<lparr>state := Some st'\<rparr>) (supplied @ extra) e"
      unfolding comp_inv_def
      apply (rule exI [of _ st'], rule exI [of _ blocks])
      using c b wf od sup' s0z cap [OF True] ew in1 in0 od1 od0 po
      by (simp add: st'_def ZFAST_IS_COMPRESSING_def staged_def ZFAST_HAS_BUFFERED_OUTPUT_def)
    moreover have "comp_measure bs (s1\<lparr>state := Some st'\<rparr>) < comp_measure bs s"
      if "extra = []" "room \<noteq> []"
    proof -
      have npos: "0 < n" using buf that by (simp add: n_def)
      have "length (take n (drop (outBuffOffs st) (outBuff st))) = n"
        using cap [OF True] by (simp add: n_def)
      with po have "length (pending_out st) = n + length (pending_out st')"
        by (metis length_append)
      moreover have "comp_measure bs (s1\<lparr>state := Some st'\<rparr>)
          = length (pending_out st') + K * length w"
        using in1 in0 s0z by (simp add: comp_measure_def K_def st'_def)
      moreover have "comp_measure bs s = length (pending_out st) + K * length w"
        using ms s0z wx [OF that(1)] by simp
      ultimately show ?thesis
        using npos by linarith
    qed
    ultimately show ?thesis
      unfolding s0_def [symmetric] FC P
      apply (intro exI [of _ Z_OK] exI [of _ "s1\<lparr>state := Some st'\<rparr>"] exI [of _ e])
      by (simp add: const_defs)
  next
    case nobuf: False
    then have po: "pending_out st = []"
      by (simp add: pending_out_def ZFAST_HAS_BUFFERED_OUTPUT_def)
    note P = fastlzlibProcess_unbuffered [OF sane st0 nobuf, of cmp dcmp flush True]
    show ?thesis
    proof (cases "str_size st = 0")
      case idle: True
      define n where "n = (if bs > length w \<and> flush = Z_FINISH then length w else bs)"
      define st1 where "st1 = st\<lparr>block_type := BLOCK_TYPE_COMPRESSED, str_size := n, dec_size := 0,
                   outBuffOffs := 0\<rparr>"
      note ph = process_header_compress [OF c in0 b nowrap fl, folded n_def,
          unfolded Let_def, folded st1_def]
      have po1: "pending_out st1 = []" "pending_out (st1\<lparr>inBuffOffs := 0\<rparr>) = []"
        by (simp_all add: pending_out_def st1_def)
      have c1: "ZFAST_IS_COMPRESSING st1" "block_size st1 = bs" "level st1 = level st"
        "str_size st1 = n" "dec_size st1 = 0"
        using c b by (simp_all add: st1_def ZFAST_IS_COMPRESSING_def)
      have sg: "staged st = []" using idle by (simp add: staged_def)
      consider (zero) "n = 0" | (direct) "0 < n" "n \<le> length w" | (buffered) "0 < n" "length w < n"
        by linarith
      then show ?thesis
      proof cases
        case zero
        then have w0: "w = []" and ff: "flush = Z_FINISH"
          using pos by (auto simp: n_def split: if_splits)
        have "fastlzlibProcess cmp dcmp s0 flush True = Inr (Z_STREAM_END, s0\<lparr>state := Some st1\<rparr>)"
          using zero idle by (simp add: P ph)
        moreover have "comp_inv cmp bs (s0\<lparr>state := Some st1\<rparr>) (supplied @ extra) e"
          unfolding comp_inv_def
          apply (rule exI [of _ st1], rule exI [of _ blocks])
          using c1 wf od sup' w0 po po1 in0 od0 zero sg
          by (simp add: staged_def ZFAST_HAS_BUFFERED_OUTPUT_def)
        moreover have "comp_final (s0\<lparr>state := Some st1\<rparr>)"
          using in0 w0 zero c1 by (simp add: comp_final_def ZFAST_HAS_BUFFERED_OUTPUT_def st1_def)
        ultimately show ?thesis
          unfolding s0_def [symmetric] FC using ff
          apply (intro exI [of _ Z_STREAM_END] exI [of _ "s0\<lparr>state := Some st1\<rparr>"] exI [of _ e])
          by (simp add: const_defs)
      next
        case direct
        define x where "x = take n w"
        define s2 where "s2 = inSeek s0 n"
        have ne: "\<not> e" using ew direct by auto
        have lx: "length x = n" using direct by (simp add: x_def)
        have in2: "in_win s2 = Win (drop n w)" and out2: "out_win s2 = Win room"
          and od2: "out_data s2 = wire cmp (zlibLevelToFastlz (level st1)) bs blocks False"
          using in0 out0 od od0 po ne c1 by (simp_all add: s2_def inSeek_def)
        have nbs: "n \<le> bs" by (simp add: n_def)
        have Pd: "fastlzlibProcess cmp dcmp s0 flush True =
          (case process_block cmp dcmp s2 st1 x flush of
             Fails f \<Rightarrow> Inl f
           | Returns r s' st' \<Rightarrow> Inr (r, s'\<lparr>state := Some st'\<rparr>)
           | Goes (s3, st3) \<Rightarrow>
               Inr (if flush = Z_FINISH \<and> ZFAST_INPUT_IS_EMPTY s3 \<and> \<not> ZFAST_HAS_BUFFERED_OUTPUT st3
                    then Z_STREAM_END else Z_OK,
                    s3\<lparr>state := Some st3\<rparr>))"
          using direct idle by (simp add: P ph process_input_def x_def s2_def)
        have xs': "str_size st1 = length x" and xb': "length x \<le> bs"
          using c1(4) lx nbs by simp_all
        from compress_tail [OF be big c1(1,2) xs' xb' c1(5) in2 out2 od2 wf fl, of dcmp]
        obtain r s' e' where
          "(case process_block cmp dcmp s2 st1 x flush of
             Fails f \<Rightarrow> Inl f
           | Returns r s' st' \<Rightarrow> Inr (r, s'\<lparr>state := Some st'\<rparr>)
           | Goes (s3, st3) \<Rightarrow>
               Inr (if flush = Z_FINISH \<and> ZFAST_INPUT_IS_EMPTY s3 \<and> \<not> ZFAST_HAS_BUFFERED_OUTPUT st3
                    then Z_STREAM_END else Z_OK,
                    s3\<lparr>state := Some st3\<rparr>)) = Inr (r, s')"
          "r = Z_OK \<or> r = Z_STREAM_END"
          "comp_inv cmp bs s' (concat blocks @ x @ drop n w) e'"
          "e' \<longrightarrow> flush = Z_FINISH" "r = Z_STREAM_END \<longrightarrow> comp_final s' \<and> flush = Z_FINISH"
          and m': "comp_measure bs s' \<le> bs + bs div 10 + 40 + K * length (drop n w)"
          unfolding K_def by blast
        moreover have "concat blocks @ x @ drop n w = supplied @ extra"
          using sup' sg by (simp add: x_def)
        moreover have "comp_measure bs s' < comp_measure bs s" if "extra = []"
        proof -
          have a: "K * length w = K * length (drop n w) + K * n"
            using direct by (simp add: distrib_left [symmetric])
          have b: "K \<le> K * n" using direct by simp
          have c: "comp_measure bs s' < K + K * length (drop n w)"
            using m' by (simp add: K_def)
          have d: "comp_measure bs s = length (pending_out st) + K * length w"
            using ms idle wx [OF that] by simp
          show ?thesis using a b c d by linarith
        qed
        ultimately show ?thesis
          unfolding s0_def [symmetric] FC Pd
          apply (intro exI [of _ r] exI [of _ s'] exI [of _ e'])
          by simp
      next
        case buffered
        then have nb: "n = bs" and nf: "flush = Z_NO_FLUSH"
          using fl by (auto simp: n_def split: if_splits)
        have ne: "\<not> e" using after nf by (auto simp: const_defs)
        define st1' where "st1' = st1\<lparr>inBuffOffs := 0\<rparr>"
        from process_input_None [OF in0, of st1' 0 bs "length w" flush] buffered nb
        obtain s2 st2 r where pi: "process_input s0 st1' None flush = (s2, st2, r)"
          and in2: "in_win s2 = Win []" and od2: "out_data s2 = out_data s0"
          and tk: "take (length w) (inBuff st2) = w" and len: "length w \<le> length (inBuff st2)"
          and st2: "st2 = st1'\<lparr>inBuff := inBuff st2, inBuffOffs := length w\<rparr>" and r: "r = None"
          using nf by (auto simp: st1'_def st1_def)
        have H: "(if str_size st = 0 then process_header s0 st flush True else Goes (s0, st, None))
            = Goes (s0, st1', None)"
          using buffered idle by (simp add: ph st1'_def)
        have PP: "fastlzlibProcess cmp dcmp s0 flush True = Inr (Z_OK, s2\<lparr>state := Some st2\<rparr>)"
          unfolding P H using pi r nf by (simp add: const_defs)
        have f2: "level st2 = level st" "block_size st2 = bs" "str_size st2 = bs"
          "dec_size st2 = 0" "outBuffOffs st2 = 0" "inBuffOffs st2 = length w"
          using b nb by (subst st2, simp add: st1'_def st1_def)+
        have "comp_inv cmp bs (s2\<lparr>state := Some st2\<rparr>) (supplied @ extra) e"
          unfolding comp_inv_def
          apply (rule exI [of _ st2], rule exI [of _ blocks])
          using f2 c wf od sup' po in2 od0 od2 sg tk len buffered nb ne pos
          by (simp add: staged_def ZFAST_HAS_BUFFERED_OUTPUT_def
              pending_out_def ZFAST_IS_COMPRESSING_def)
        then show ?thesis
          unfolding s0_def [symmetric] FC PP
          apply (intro exI [of _ Z_OK] exI [of _ "s2\<lparr>state := Some st2\<rparr>"] exI [of _ e])
          using nf by (simp add: const_defs)
      qed
    next
      case staging: False
      from stg [OF staging] have ss: "str_size st = bs" and ib: "inBuffOffs st < bs"
        and il: "inBuffOffs st \<le> length (inBuff st)" and d0: "dec_size st = 0"
        by auto
      have ne: "\<not> e" using ee staging by auto
      define i where "i = inBuffOffs st"
      define n where "n = min (bs - i) (length w)"
      have ib': "i < bs" and il': "i \<le> length (inBuff st)" using ib il by (simp_all add: i_def)
      from process_input_None [OF in0 i_def [symmetric] ss ib' il' n_def, of flush]
      obtain s2 st2 r where pi: "process_input s0 st None flush = (s2, st2, r)"
        and in2: "in_win s2 = Win (drop n w)" and out2: "out_win s2 = out_win s0"
        and od2: "out_data s2 = out_data s0"
        and tk: "take (i + n) (inBuff st2) = take i (inBuff st) @ take n w"
        and len: "i + n \<le> length (inBuff st2)"
        and res: "if i + n = bs
         then st2 = st\<lparr>inBuff := inBuff st2, inBuffOffs := bs\<rparr> \<and> r = Some (take bs (inBuff st2))
         else if flush \<noteq> Z_NO_FLUSH
         then st2 = st\<lparr>inBuff := inBuff st2, inBuffOffs := i + n, str_size := i + n\<rparr>
              \<and> r = Some (take (i + n) (inBuff st2))
         else st2 = st\<lparr>inBuff := inBuff st2, inBuffOffs := i + n\<rparr> \<and> r = None"
        by blast
      have H: "(if str_size st = 0 then process_header s0 st flush True else Goes (s0, st, None))
            = Goes (s0, st, None)"
        using staging by simp
      have sgd: "staged st = take i (inBuff st)" using staging by (simp add: staged_def i_def)
      have nle: "i + n \<le> bs" using ib' by (simp add: n_def)
      define ib2 where "ib2 = inBuff st2"
      note res' = res [folded ib2_def]
      have out2': "out_win s2 = Win room" using out2 out0 by simp
      have o0: "outBuffOffs st = 0" using stg [OF staging] by simp
      show ?thesis
      proof (cases "i + n = bs \<or> flush = Z_FINISH")
        case emit: True
        define x where "x = take (i + n) ib2"
        have r: "r = Some x"
          using res' emit by (auto simp: x_def const_defs split: if_splits)
        have f2: "level st2 = level st" "block_size st2 = bs" "dec_size st2 = 0"
          "str_size st2 = i + n" "ZFAST_IS_COMPRESSING st2"
          using res' emit b d0 ss c
          by (auto simp: const_defs ZFAST_IS_COMPRESSING_def split: if_splits)
        have lx: "length x = i + n" using len by (simp add: x_def ib2_def)
        have od2': "out_data s2 = wire cmp (zlibLevelToFastlz (level st2)) bs blocks False"
          using od po ne od0 od2 f2(1) by simp
        have Pd: "fastlzlibProcess cmp dcmp s0 flush True =
          (case process_block cmp dcmp s2 st2 x flush of
             Fails f \<Rightarrow> Inl f
           | Returns r s' st' \<Rightarrow> Inr (r, s'\<lparr>state := Some st'\<rparr>)
           | Goes (s3, st3) \<Rightarrow>
               Inr (if flush = Z_FINISH \<and> ZFAST_INPUT_IS_EMPTY s3 \<and> \<not> ZFAST_HAS_BUFFERED_OUTPUT st3
                    then Z_STREAM_END else Z_OK,
                    s3\<lparr>state := Some st3\<rparr>))"
          unfolding P H using pi r by simp
        have xs': "str_size st2 = length x" and xb': "length x \<le> bs"
          using f2(4) lx nle by simp_all
        from compress_tail [OF be big f2(5) f2(2) xs' xb' f2(3) in2 out2' od2' wf fl, of dcmp]
        obtain r' s' e' where
          "(case process_block cmp dcmp s2 st2 x flush of
             Fails f \<Rightarrow> Inl f
           | Returns r s' st' \<Rightarrow> Inr (r, s'\<lparr>state := Some st'\<rparr>)
           | Goes (s3, st3) \<Rightarrow>
               Inr (if flush = Z_FINISH \<and> ZFAST_INPUT_IS_EMPTY s3 \<and> \<not> ZFAST_HAS_BUFFERED_OUTPUT st3
                    then Z_STREAM_END else Z_OK,
                    s3\<lparr>state := Some st3\<rparr>)) = Inr (r', s')"
          "r' = Z_OK \<or> r' = Z_STREAM_END"
          "comp_inv cmp bs s' (concat blocks @ x @ drop n w) e'"
          "e' \<longrightarrow> flush = Z_FINISH" "r' = Z_STREAM_END \<longrightarrow> comp_final s' \<and> flush = Z_FINISH"
          and m': "comp_measure bs s' \<le> bs + bs div 10 + 40 + K * length (drop n w)"
          unfolding K_def by blast
        moreover have "concat blocks @ x @ drop n w = supplied @ extra"
          using sup' sgd tk by (simp add: x_def ib2_def)
        moreover have "comp_measure bs s' < comp_measure bs s" if "extra = []"
        proof -
          have a: "K * length (drop n w) \<le> K * length w" by simp
          have c: "comp_measure bs s' < K + K * length (drop n w)"
            using m' by (simp add: K_def)
          have d: "comp_measure bs s = length (pending_out st) + (K * length w + K)"
            using ms staging wx [OF that] by simp
          show ?thesis using a c d by linarith
        qed
        ultimately show ?thesis
          unfolding s0_def [symmetric] FC Pd
          apply (intro exI [of _ r'] exI [of _ s'] exI [of _ e'])
          by simp
      next
        case wait: False
        then have nf: "flush = Z_NO_FLUSH" and nb: "i + n \<noteq> bs" using fl by auto
        have nw: "n = length w" using nb ib' by (auto simp: n_def min_def split: if_splits)
        have st2: "st2 = st\<lparr>inBuff := ib2, inBuffOffs := i + n\<rparr>" and r: "r = None"
          using res' nb nf by (auto split: if_splits)
        have PP: "fastlzlibProcess cmp dcmp s0 flush True = Inr (Z_OK, s2\<lparr>state := Some st2\<rparr>)"
          unfolding P H using pi r nf by (simp add: const_defs)
        have tk': "take (i + n) ib2 = take i (inBuff st) @ w"
          using tk nw by (simp add: ib2_def)
        have len': "i + n \<le> length ib2" using len by (simp add: ib2_def)
        have lt: "i + n < bs" using nle nb by simp
        have "comp_inv cmp bs (s2\<lparr>state := Some st2\<rparr>) (supplied @ extra) e"
          unfolding comp_inv_def
          apply (rule exI [of _ st2], rule exI [of _ blocks])
          using c b wf od sup' po in2 od0 od2 sgd tk' len' lt ne pos ss d0 o0 nw
          by (simp add: st2 staged_def ZFAST_HAS_BUFFERED_OUTPUT_def
              pending_out_def ZFAST_IS_COMPRESSING_def)
        then show ?thesis
          unfolding s0_def [symmetric] FC PP
          apply (intro exI [of _ Z_OK] exI [of _ "s2\<lparr>state := Some st2\<rparr>"] exI [of _ e])
          using nf by (simp add: const_defs)
      qed
    qed
  qed
qed

text \<open>A compressing run keeps the invariant: first the calls after the \<^verbatim>\<open>Z_FINISH\<close> call,
  then the whole run.\<close>

lemma no_input_concat:
  "list_all (\<lambda>(m, r, f). m = [] \<and> f = Z_FINISH) cs \<Longrightarrow> concat (map fst cs) = []"
  by (induction cs) auto

lemma compress_run_finish:
  assumes be: "bounded_expansion cmp bs" and pos: "0 < bs" and big: "bs \<le> 2 ^ 20"
  shows "comp_inv cmp bs s supplied e
    \<Longrightarrow> list_all (\<lambda>(m, r, f). m = [] \<and> f = Z_FINISH) cs
    \<Longrightarrow> \<exists>r s' e'. compress_run cmp dcmp s cs = Inr (r, s')
          \<and> (r = Z_OK \<or> r = Z_STREAM_END)
          \<and> comp_inv cmp bs s' supplied e'
          \<and> (r = Z_STREAM_END \<longrightarrow> comp_final s')"
proof (induction cs arbitrary: s e)
  case Nil
  then show ?case by (auto simp: const_defs)
next
  case (Cons c cs)
  obtain extra room flush where c: "c = (extra, room, flush)" by (cases c) auto
  from Cons.prems(2) c have ex: "extra = []" and fl: "flush = Z_FINISH"
    and rest: "list_all (\<lambda>(m, r, f). m = [] \<and> f = Z_FINISH) cs" by auto
  have "\<exists>r s' e'. fastlzlibCompress cmp dcmp (offer s extra room) flush = Inr (r, s')
     \<and> (r = Z_OK \<or> r = Z_STREAM_END)
     \<and> comp_inv cmp bs s' (supplied @ extra) e'
     \<and> (e' \<longrightarrow> e \<or> flush = Z_FINISH)
     \<and> (r = Z_STREAM_END \<longrightarrow> comp_final s' \<and> flush = Z_FINISH)
     \<and> (flush = Z_FINISH \<and> extra = [] \<and> room \<noteq> [] \<and> r = Z_OK
          \<longrightarrow> comp_measure bs s' < comp_measure bs s)"
    by (rule compress_step [OF Cons.prems(1) be pos big]) (simp_all add: ex fl)
  then obtain r s' e' where
    step: "fastlzlibCompress cmp dcmp (offer s extra room) flush = Inr (r, s')"
    and r: "r = Z_OK \<or> r = Z_STREAM_END"
    and inv: "comp_inv cmp bs s' supplied e'"
    and fin: "r = Z_STREAM_END \<longrightarrow> comp_final s'"
    using ex by auto
  have run: "compress_run cmp dcmp s (c # cs)
      = (if r = Z_OK then compress_run cmp dcmp s' cs else Inr (r, s'))"
    using step by (simp add: c)
  show ?case
  proof (cases "r = Z_OK")
    case True
    from Cons.IH [OF inv rest] show ?thesis
      unfolding run using True by simp
  next
    case False
    then show ?thesis unfolding run using r inv fin by auto
  qed
qed

lemma compress_run_inv:
  assumes be: "bounded_expansion cmp bs" and pos: "0 < bs" and big: "bs \<le> 2 ^ 20"
  shows "comp_inv cmp bs s supplied False
    \<Longrightarrow> finishing cs
    \<Longrightarrow> \<exists>r s' e'. compress_run cmp dcmp s cs = Inr (r, s')
          \<and> (r = Z_OK \<or> r = Z_STREAM_END)
          \<and> comp_inv cmp bs s' (supplied @ concat (map fst cs)) e'
          \<and> (r = Z_STREAM_END \<longrightarrow> comp_final s')"
proof (induction cs arbitrary: s supplied)
  case Nil
  then show ?case by (auto simp: const_defs)
next
  case (Cons c cs)
  obtain extra room flush where c: "c = (extra, room, flush)" by (cases c) auto
  from Cons.prems(2) c have fl: "flush = Z_NO_FLUSH \<or> flush = Z_FINISH"
    by (auto split: if_splits)
  have "\<exists>r s' e'. fastlzlibCompress cmp dcmp (offer s extra room) flush = Inr (r, s')
     \<and> (r = Z_OK \<or> r = Z_STREAM_END)
     \<and> comp_inv cmp bs s' (supplied @ extra) e'
     \<and> (e' \<longrightarrow> False \<or> flush = Z_FINISH)
     \<and> (r = Z_STREAM_END \<longrightarrow> comp_final s' \<and> flush = Z_FINISH)
     \<and> (flush = Z_FINISH \<and> extra = [] \<and> room \<noteq> [] \<and> r = Z_OK
          \<longrightarrow> comp_measure bs s' < comp_measure bs s)"
    by (rule compress_step [OF Cons.prems(1) be pos big fl]) simp
  then obtain r s' e' where
    step: "fastlzlibCompress cmp dcmp (offer s extra room) flush = Inr (r, s')"
    and r: "r = Z_OK \<or> r = Z_STREAM_END"
    and inv: "comp_inv cmp bs s' (supplied @ extra) e'"
    and e': "e' \<longrightarrow> flush = Z_FINISH"
    and fin: "r = Z_STREAM_END \<longrightarrow> comp_final s' \<and> flush = Z_FINISH"
    by auto
  have run: "compress_run cmp dcmp s (c # cs)
      = (if r = Z_OK then compress_run cmp dcmp s' cs else Inr (r, s'))"
    using step by (simp add: c)
  have cc: "supplied @ concat (map fst (c # cs)) = (supplied @ extra) @ concat (map fst cs)"
    by (simp add: c)
  show ?case
  proof (cases "flush = Z_FINISH")
    case True
    with Cons.prems(2) c have rest: "list_all (\<lambda>(m, r, f). m = [] \<and> f = Z_FINISH) cs"
      by simp
    have nil: "concat (map fst cs) = []" by (rule no_input_concat [OF rest])
    show ?thesis
    proof (cases "r = Z_OK")
      case ok: True
      from compress_run_finish [OF be pos big inv rest, of dcmp] show ?thesis
        unfolding run cc nil using ok by simp
    next
      case False
      then show ?thesis unfolding run cc nil using r inv fin by auto
    qed
  next
    case nf: False
    with Cons.prems(2) c have rest: "finishing cs" by simp
    from e' nf have ne: "e' = False" by simp
    have rok: "r = Z_OK" using r fin nf by auto
    from Cons.IH [OF inv [unfolded ne] rest] show ?thesis
      unfolding run cc using rok by simp
  qed
qed

lemma compress_run_append:
  "compress_run cmp dcmp s (cs @ fs) =
     (case compress_run cmp dcmp s cs of
        Inl f \<Rightarrow> Inl f
      | Inr (r, s') \<Rightarrow> if r = Z_OK then compress_run cmp dcmp s' fs else Inr (r, s'))"
proof (induction cs arbitrary: s)
  case Nil
  show ?case by simp
next
  case (Cons c cs)
  obtain extra room flush where c: "c = (extra, room, flush)" by (cases c) auto
  show ?case
  proof (cases "fastlzlibCompress cmp dcmp (offer s extra room) flush")
    case (Inl f)
    then show ?thesis by (simp add: c)
  next
    case (Inr p)
    obtain r s' where p: "p = (r, s')" by (cases p)
    show ?thesis using Inr p Cons.IH [of s'] by (simp add: c)
  qed
qed

text \<open>The calls with \<^verbatim>\<open>Z_FINISH\<close>, no input and room for output bring the stream to its end.\<close>

lemma compress_run_tail:
  assumes be: "bounded_expansion cmp bs" and pos: "0 < bs" and big: "bs \<le> 2 ^ 20"
  shows "comp_inv cmp bs s supplied e
    \<Longrightarrow> list_all (\<lambda>(m, r, f). m = [] \<and> r \<noteq> [] \<and> f = Z_FINISH) fs
    \<Longrightarrow> comp_measure bs s < length fs
    \<Longrightarrow> \<exists>s' e'. compress_run cmp dcmp s fs = Inr (Z_STREAM_END, s')
          \<and> comp_inv cmp bs s' supplied e' \<and> comp_final s'"
proof (induction fs arbitrary: s e)
  case Nil
  then show ?case by simp
next
  case (Cons c fs)
  obtain extra room flush where c: "c = (extra, room, flush)" by (cases c) auto
  from Cons.prems(2) c have ex: "extra = []" and rm: "room \<noteq> []" and fl: "flush = Z_FINISH"
    and rest: "list_all (\<lambda>(m, r, f). m = [] \<and> r \<noteq> [] \<and> f = Z_FINISH) fs" by auto
  have "\<exists>r s' e'. fastlzlibCompress cmp dcmp (offer s extra room) flush = Inr (r, s')
     \<and> (r = Z_OK \<or> r = Z_STREAM_END)
     \<and> comp_inv cmp bs s' (supplied @ extra) e'
     \<and> (e' \<longrightarrow> e \<or> flush = Z_FINISH)
     \<and> (r = Z_STREAM_END \<longrightarrow> comp_final s' \<and> flush = Z_FINISH)
     \<and> (flush = Z_FINISH \<and> extra = [] \<and> room \<noteq> [] \<and> r = Z_OK
          \<longrightarrow> comp_measure bs s' < comp_measure bs s)"
    by (rule compress_step [OF Cons.prems(1) be pos big]) (simp_all add: ex fl)
  then obtain r s' e' where
    step: "fastlzlibCompress cmp dcmp (offer s extra room) flush = Inr (r, s')"
    and r: "r = Z_OK \<or> r = Z_STREAM_END"
    and inv: "comp_inv cmp bs s' supplied e'"
    and fin: "r = Z_STREAM_END \<longrightarrow> comp_final s'"
    and prog: "r = Z_OK \<longrightarrow> comp_measure bs s' < comp_measure bs s"
    using ex rm fl by auto
  have run: "compress_run cmp dcmp s (c # fs)
      = (if r = Z_OK then compress_run cmp dcmp s' fs else Inr (r, s'))"
    using step by (simp add: c)
  show ?case
  proof (cases "r = Z_OK")
    case True
    with prog Cons.prems(3) have "comp_measure bs s' < length fs" by simp
    from Cons.IH [OF inv rest this] show ?thesis
      unfolding run using True by simp
  next
    case False
    with r have "r = Z_STREAM_END" by simp
    then show ?thesis unfolding run using False inv fin by auto
  qed
qed

text \<open>The length of the wire form, and the bound of the measure.\<close>

lemma frame_length_bound:
  assumes be: "bounded_expansion cmp bs" and l: "l = 1 \<or> l = 2"
    and x: "x \<noteq> []" "length x \<le> bs"
  shows "length (frame cmp l bs x) \<le> 22 * length x"
proof -
  have "1 \<le> length x" using x by (cases x) simp_all
  moreover have "length x div 10 \<le> length x" by simp
  ultimately have a: "20 + length x + length x div 10 \<le> 22 * length x" by linarith
  show ?thesis
  proof (cases "length x > MIN_BLOCK_SIZE")
    case True
    with be l x have "length (cmp l x) \<le> length x + length x div 10"
      by (auto simp: bounded_expansion_def EXPANSION_RATIO_def)
    with a True show ?thesis by (simp add: length_frame)
  next
    case False
    with a show ?thesis by (simp add: length_frame)
  qed
qed

lemma wire_length_bound:
  assumes be: "bounded_expansion cmp bs" and l: "l = 1 \<or> l = 2"
  shows "list_all (\<lambda>b. b \<noteq> [] \<and> length b \<le> bs) blocks
    \<Longrightarrow> length (wire cmp l bs blocks e) \<le> 22 * length (concat blocks) + 20"
proof (induction blocks)
  case Nil
  then show ?case by (simp add: wire_def length_eof_marker)
next
  case (Cons x blocks)
  then have x: "x \<noteq> []" "length x \<le> bs"
    and rest: "list_all (\<lambda>b. b \<noteq> [] \<and> length b \<le> bs) blocks" by simp_all
  have w: "wire cmp l bs (x # blocks) e = frame cmp l bs x @ wire cmp l bs blocks e"
    by (simp add: wire_def)
  from frame_length_bound [OF be l x] Cons.IH [OF rest] show ?case
    unfolding w by simp
qed

lemma comp_measure_bound:
  assumes inv: "comp_inv cmp bs s X e" and be: "bounded_expansion cmp bs"
  shows "comp_measure bs s < compress_calls bs (length X)"
proof -
  from inv obtain st blocks where st: "state s = Some st"
    and wf: "list_all (\<lambda>b. b \<noteq> [] \<and> length b \<le> bs) blocks"
    and od: "out_data s @ pending_out st = wire cmp (zlibLevelToFastlz (level st)) bs blocks e"
    and sup: "concat blocks @ staged st @ window_bytes (in_win s) = X"
    unfolding comp_inv_def by blast
  define K where "K = bs + bs div 10 + 41"
  have l: "zlibLevelToFastlz (level st) = 1 \<or> zlibLevelToFastlz (level st) = 2"
    by (simp add: zlibLevelToFastlz_def)
  have "length (pending_out st) \<le> length (out_data s @ pending_out st)" by simp
  also have "\<dots> \<le> 22 * length (concat blocks) + 20"
    unfolding od by (rule wire_length_bound [OF be l wf])
  finally have p: "length (pending_out st) \<le> 22 * length (concat blocks) + 20" .
  have X: "length X = length (concat blocks) + length (staged st) + length (window_bytes (in_win s))"
    using sup by (metis length_append add.assoc)
  have c: "length (concat blocks) \<le> length X" using X by simp
  have w: "length (window_bytes (in_win s)) + (if str_size st = 0 then 0 else 1) \<le> length X + 1"
    using X by simp
  have "K * (length (window_bytes (in_win s)) + (if str_size st = 0 then 0 else 1))
      \<le> K * (length X + 1)"
    using w by (rule mult_le_mono2)
  moreover have "comp_measure bs s = length (pending_out st)
      + K * (length (window_bytes (in_win s)) + (if str_size st = 0 then 0 else 1))"
    using st by (simp add: comp_measure_def K_def)
  moreover have "compress_calls bs (length X) = 22 * length X + 21 + K * (length X + 1)"
    by (simp add: compress_calls_def K_def)
  ultimately show ?thesis using p c by linarith
qed

text \<open>The whole compressing run: the calls that hand over the input, then calls with
  \<^verbatim>\<open>Z_FINISH\<close>, no input and room for output, as many as \<open>compress_calls\<close> says.\<close>

lemma compress_run_total:
  assumes be: "bounded_expansion cmp bs" and pos: "0 < bs" and big: "bs \<le> 2 ^ 20"
    and inv: "comp_inv cmp bs s [] False" and fin: "finishing cs"
    and fs: "list_all (\<lambda>(m, r, f). m = [] \<and> r \<noteq> [] \<and> f = Z_FINISH) fs"
    and n: "compress_calls bs (length (concat (map fst cs))) \<le> length fs"
  shows "\<exists>s' e'. compress_run cmp dcmp s (cs @ fs) = Inr (Z_STREAM_END, s')
          \<and> comp_inv cmp bs s' (concat (map fst cs)) e' \<and> comp_final s'"
proof -
  from compress_run_inv [OF be pos big inv fin, of dcmp]
  obtain r s1 e1 where run: "compress_run cmp dcmp s cs = Inr (r, s1)"
    and r: "r = Z_OK \<or> r = Z_STREAM_END"
    and inv1: "comp_inv cmp bs s1 (concat (map fst cs)) e1"
    and final: "r = Z_STREAM_END \<longrightarrow> comp_final s1"
    by auto
  have app: "compress_run cmp dcmp s (cs @ fs)
      = (if r = Z_OK then compress_run cmp dcmp s1 fs else Inr (r, s1))"
    unfolding compress_run_append run by simp
  show ?thesis
  proof (cases "r = Z_OK")
    case True
    from comp_measure_bound [OF inv1 be] n have "comp_measure bs s1 < length fs" by simp
    from compress_run_tail [OF be pos big inv1 fs this, of dcmp] show ?thesis
      unfolding app using True by simp
  next
    case False
    with r have e: "r = Z_STREAM_END" by simp
    with final inv1 show ?thesis unfolding app using False by auto
  qed
qed

text \<open>The header of the next block, decompressing: complete, or staged for the next
  call.\<close>

lemma frame_block_payload:
  "frame cmp l bs x
     = fastlz_write_header (block_kind x) bs (length (block_payload cmp l x)) (length x) @ block_payload cmp l x"
  by (simp add: frame_def block_payload_def block_kind_def)

lemma decompress_header_enough:
  assumes w: "in_win s = Win w" and h: "inHdrOffs st = h" and h20: "h < 20"
    and len: "length (inHdr st) = 20" and en: "20 \<le> h + length w"
    and rd: "fastlz_read_header (take h (inHdr st) @ take (20 - h) w) = (t, b, c, d)"
  shows "\<exists>s' ih. decompress_header s st True
        = Goes (s', st\<lparr>inHdr := ih, inHdrOffs := 0, block_type := t, str_size := c, dec_size := d\<rparr>, b)
     \<and> length ih = 20 \<and> in_win s' = Win (drop (20 - h) w)
     \<and> out_win s' = out_win s \<and> out_data s' = out_data s"
proof (cases "h = 0")
  case True
  with en have l20: "20 \<le> length w" by simp
  have rd': "fastlz_read_header (take 20 w) = (t, b, c, d)" using rd True by simp
  have eq: "st\<lparr>block_type := t, str_size := c, dec_size := d\<rparr>
      = st\<lparr>inHdr := inHdr st, inHdrOffs := 0, block_type := t, str_size := c, dec_size := d\<rparr>"
    using h True by (cases st) simp
  have "decompress_header s st True
      = Goes (inSeek s 20, st\<lparr>block_type := t, str_size := c, dec_size := d\<rparr>, b)"
    using w h True l20 rd'
    by (simp add: decompress_header_def decompress_header_parse_def avail_in_def HEADER_SIZE_def)
  then show ?thesis
    unfolding eq
    apply (intro exI [of _ "inSeek s 20"] exI [of _ "inHdr st"])
    using w len True by (simp add: inSeek_def)
next
  case False
  have hle: "h \<le> 20" using h20 by simp
  have k: "min (20 - h) (length w) = 20 - h" using en by simp
  from header_loop_Win [OF w h hle len] obtain s' st' where
    hl: "header_loop s st = (s', st')"
    and in': "in_win s' = Win (drop (20 - h) w)"
    and s': "s' = s\<lparr>in_win := in_win s', total_in := total_in s'\<rparr>"
    and st': "st' = st\<lparr>inHdr := take h (inHdr st) @ take (20 - h) w @ drop (h + (20 - h)) (inHdr st),
                 inHdrOffs := h + (20 - h)\<rparr>"
    unfolding k by blast
  have dr: "drop 20 (inHdr st) = []" using len by simp
  have hh: "h + (20 - h) = 20" using h20 by simp
  define ih where "ih = take h (inHdr st) @ take (20 - h) w"
  have st'': "st' = st\<lparr>inHdr := ih, inHdrOffs := 20\<rparr>"
    using st' unfolding hh dr by (simp add: ih_def)
  have lih: "length ih = 20" using len h20 en by (simp add: ih_def)
  have o: "out_win s' = out_win s" "out_data s' = out_data s"
    by (subst s', simp)+
  have "decompress_header s st True
      = Goes (s', st\<lparr>inHdr := ih, inHdrOffs := 0, block_type := t, str_size := c, dec_size := d\<rparr>, b)"
    using h False hl rd
    by (simp add: decompress_header_def decompress_header_parse_def st'' HEADER_SIZE_def
        ih_def [symmetric])
  then show ?thesis
    using lih in' o by blast
qed

lemma decompress_header_short:
  assumes w: "in_win s = Win w" and h: "inHdrOffs st = h"
    and len: "length (inHdr st) = 20" and en: "h + length w < 20"
  shows "\<exists>s' ih. decompress_header s st True
        = Returns Z_OK s' (st\<lparr>inHdr := ih, inHdrOffs := h + length w\<rparr>)
     \<and> length ih = 20 \<and> take (h + length w) ih = take h (inHdr st) @ w
     \<and> in_win s' = Win [] \<and> out_win s' = out_win s \<and> out_data s' = out_data s"
proof -
  have hle: "h \<le> 20" using en by simp
  have k: "min (20 - h) (length w) = length w" using en by simp
  from header_loop_Win [OF w h hle len] obtain s' st' where
    hl: "header_loop s st = (s', st')"
    and in': "in_win s' = Win (drop (length w) w)"
    and s': "s' = s\<lparr>in_win := in_win s', total_in := total_in s'\<rparr>"
    and st': "st' = st\<lparr>inHdr := take h (inHdr st) @ take (length w) w
                           @ drop (h + length w) (inHdr st),
                 inHdrOffs := h + length w\<rparr>"
    unfolding k by blast
  define ih where "ih = take h (inHdr st) @ w @ drop (h + length w) (inHdr st)"
  have st'': "st' = st\<lparr>inHdr := ih, inHdrOffs := h + length w\<rparr>"
    using st' by (simp add: ih_def)
  have lih: "length ih = 20" using len en by (simp add: ih_def)
  have tk: "take (h + length w) ih = take h (inHdr st) @ w"
    using len en by (simp add: ih_def)
  have o: "out_win s' = out_win s" "out_data s' = out_data s"
    by (subst s', simp)+
  have av: "avail_in s < 20" using w en by (simp add: avail_in_def)
  have "decompress_header s st True = Returns Z_OK s' (st\<lparr>inHdr := ih, inHdrOffs := h + length w\<rparr>)"
    using h hl en av in'
    by (simp add: decompress_header_def decompress_header_parse_def st'' HEADER_SIZE_def
        avail_in_def)
  then show ?thesis
    using lih tk in' o by auto
qed

text \<open>The block section of a decompressing call.\<close>

lemma wire_Cons:
  "wire cmp l bs (x # rest) e
     = fastlz_write_header (block_kind x) bs (length (block_payload cmp l x)) (length x)
         @ block_payload cmp l x @ wire cmp l bs rest e"
  by (simp add: wire_def frame_block_payload)

lemma wire_Nil: "wire cmp l bs [] e = (if e then eof_marker bs else [])"
  by (simp add: wire_def)

lemma process_header_decompress:
  assumes d: "ZFAST_IS_DECOMPRESSING st"
    and dh: "decompress_header s st True = Goes (s1, st1, b)"
    and t: "block_type st1 = BLOCK_TYPE_RAW \<or> block_type st1 = BLOCK_TYPE_COMPRESSED"
    and bb: "b \<le> block_size st1"
    and dd: "dec_size st1 \<le> BUFFER_BLOCK_SIZE st1" and cc: "str_size st1 \<le> BUFFER_BLOCK_SIZE st1"
    and w1: "in_win s1 = Win w1"
  shows "process_header s st flush True =
     (if str_size st1 = 0 \<and> dec_size st1 = 0
      then Returns Z_STREAM_END s1 (st1\<lparr>outBuffOffs := dec_size st1\<rparr>)
      else if str_size st1 \<le> length w1
      then Goes (inSeek s1 (str_size st1), st1\<lparr>outBuffOffs := dec_size st1\<rparr>,
                 Some (take (str_size st1) w1))
      else Goes (s1, st1\<lparr>outBuffOffs := dec_size st1, inBuffOffs := 0\<rparr>, None))"
proof -
  have nb: "block_type st1 \<noteq> BLOCK_TYPE_BAD_MAGIC"
    using t by (auto simp: const_defs)
  have ok: "\<not> (block_type st1 \<noteq> BLOCK_TYPE_RAW \<and> block_type st1 \<noteq> BLOCK_TYPE_COMPRESSED)"
    using t by auto
  have b1: "BLOCK_SIZE (st1\<lparr>outBuffOffs := v\<rparr>) = block_size st1" for v
    by (simp add: BLOCK_SIZE_def)
  have b2: "BUFFER_BLOCK_SIZE (st1\<lparr>outBuffOffs := v\<rparr>) = BUFFER_BLOCK_SIZE st1" for v
    by (simp add: BUFFER_BLOCK_SIZE_def BLOCK_SIZE_def)
  have nm: "BLOCK_TYPE_RAW \<noteq> BLOCK_TYPE_BAD_MAGIC" "BLOCK_TYPE_COMPRESSED \<noteq> BLOCK_TYPE_BAD_MAGIC"
    by (simp_all add: const_defs)
  from t show ?thesis
  proof
    assume r: "block_type st1 = BLOCK_TYPE_RAW"
    show ?thesis
      using bb dd cc w1
      by (simp add: process_header_def d dh Let_def b1 b2 avail_in_def r nm)
  next
    assume r: "block_type st1 = BLOCK_TYPE_COMPRESSED"
    show ?thesis
      using bb dd cc w1
      by (simp add: process_header_def d dh Let_def b1 b2 avail_in_def r nm)
  qed
qed

lemma decompress_block_emits:
  assumes ll: "lossless cmp dcmp bs" and l: "l = 1 \<or> l = 2" and xb: "length x \<le> bs"
    and bt: "block_type st = block_kind x" and ss: "str_size st = length (block_payload cmp l x)"
    and ds: "dec_size st = length x" and out: "out_win s = Win room"
  shows "\<exists>s' st'. decompress_block dcmp s st (block_payload cmp l x) = Goes (s', st')
     \<and> in_win s' = in_win s
     \<and> out_data s' @ pending_out st' = out_data s @ x
     \<and> (ZFAST_HAS_BUFFERED_OUTPUT st' \<longrightarrow> dec_size st' \<le> length (outBuff st'))
     \<and> st' = st\<lparr>outBuff := outBuff st', outBuffOffs := outBuffOffs st', str_size := 0\<rparr>
     \<and> length (out_data s) \<le> length (out_data s')"
proof -
  have bytes: "(if block_type st = BLOCK_TYPE_COMPRESSED
            then Some (case dcmp (block_payload cmp l x) (dec_size st) of (bs, n) \<Rightarrow> (take (dec_size st) bs, n))
            else if block_type st = BLOCK_TYPE_RAW
            then Some (if dec_size st \<ge> str_size st then (block_payload cmp l x, str_size st) else ([], 0))
            else None) = Some (x, length x)"
  proof (cases "length x > MIN_BLOCK_SIZE")
    case True
    with ll l xb have "dcmp (cmp l x) (length x) = (x, length x)"
      by (auto simp: lossless_def)
    then show ?thesis using True bt ds by (simp add: block_kind_def block_payload_def)
  next
    case False
    then show ?thesis using bt ds ss by (simp add: block_kind_def block_payload_def const_defs)
  qed
  show ?thesis
  proof (cases "length room \<ge> length x")
    case True
    have "decompress_block dcmp s st (block_payload cmp l x)
        = Goes (outSeek (memcpy_out s x) (length x), st\<lparr>outBuffOffs := length x, str_size := 0\<rparr>)"
      unfolding decompress_block_def Let_def bytes
      using True out ds by (simp add: avail_out_def)
    moreover have "out_data (outSeek (memcpy_out s x) (length x)) = out_data s @ x"
      using out True by (simp add: outSeek_def memcpy_out_def)
    moreover have "in_win (outSeek (memcpy_out s x) (length x)) = in_win s"
      by (simp add: outSeek_def memcpy_out_def)
    ultimately show ?thesis
      using ds by (simp add: pending_out_def ZFAST_HAS_BUFFERED_OUTPUT_def)
  next
    case False
    have "decompress_block dcmp s st (block_payload cmp l x)
        = Goes (s, st\<lparr>outBuffOffs := 0, str_size := 0, outBuff := memcpy_at (outBuff st) 0 x\<rparr>)"
      unfolding decompress_block_def Let_def bytes
      using False out ds by (simp add: avail_out_def)
    moreover have "pending_out (st\<lparr>outBuffOffs := 0, str_size := 0,
        outBuff := memcpy_at (outBuff st) 0 x\<rparr>) = x"
      using ds by (simp add: pending_out_def memcpy_at_def)
    ultimately show ?thesis
      using ds by (simp add: ZFAST_HAS_BUFFERED_OUTPUT_def memcpy_at_def)
  qed
qed

lemma decompress_tail:
  assumes ll: "lossless cmp dcmp bs" and l: "l = 1 \<or> l = 2"
    and d: "ZFAST_IS_DECOMPRESSING st2" and b: "block_size st2 = bd"
    and lenH: "length (inHdr st2) = 20" and h0: "inHdrOffs st2 = 0"
    and bt: "block_type st2 = block_kind x" and ss: "str_size st2 = length (block_payload cmp l x)"
    and ds: "dec_size st2 = length x" and xb: "length x \<le> bs"
    and w2: "in_win s2 = Win w2" and room: "out_win s2 = Win room"
    and od: "out_data s2 = concat decoded" and blocks: "blocks = decoded @ x # rest'"
    and rem: "w2 @ future = wire cmp l bs rest' e"
  shows "\<exists>s'.
     (case process_block cmp dcmp s2 st2 (block_payload cmp l x) Z_NO_FLUSH of
        Fails f \<Rightarrow> Inl f
      | Returns r s' st' \<Rightarrow> Inr (r, s'\<lparr>state := Some st'\<rparr>)
      | Goes (s3, st3) \<Rightarrow>
          Inr (if Z_NO_FLUSH = Z_FINISH \<and> ZFAST_INPUT_IS_EMPTY s3 \<and> \<not> ZFAST_HAS_BUFFERED_OUTPUT st3
               then Z_STREAM_END else Z_OK,
               s3\<lparr>state := Some st3\<rparr>)) = Inr (Z_OK, s')
     \<and> decomp_inv cmp l bs bd s' blocks e future
     \<and> in_win s' = Win w2 \<and> length (out_data s2) \<le> length (out_data s')"
proof -
  have pb: "process_block cmp dcmp s2 st2 (block_payload cmp l x) Z_NO_FLUSH
      = decompress_block dcmp s2 st2 (block_payload cmp l x)"
    by (simp add: process_block_def d Let_def)
  from decompress_block_emits [OF ll l xb bt ss ds room]
  obtain s3 st3 where db: "decompress_block dcmp s2 st2 (block_payload cmp l x) = Goes (s3, st3)"
    and in3: "in_win s3 = in_win s2"
    and out3: "out_data s3 @ pending_out st3 = out_data s2 @ x"
    and cap3: "ZFAST_HAS_BUFFERED_OUTPUT st3 \<longrightarrow> dec_size st3 \<le> length (outBuff st3)"
    and st3: "st3 = st2\<lparr>outBuff := outBuff st3, outBuffOffs := outBuffOffs st3, str_size := 0\<rparr>"
    and grow: "length (out_data s2) \<le> length (out_data s3)"
    by blast
  have fields: "ZFAST_IS_DECOMPRESSING st3" "block_size st3 = bd" "str_size st3 = 0"
    "length (inHdr st3) = 20" "inHdrOffs st3 = 0"
    using d b lenH h0
    by (subst st3, simp add: ZFAST_IS_DECOMPRESSING_def ZFAST_IS_COMPRESSING_def)+
  have eq: "(case process_block cmp dcmp s2 st2 (block_payload cmp l x) Z_NO_FLUSH of
        Fails f \<Rightarrow> Inl f
      | Returns r s' st' \<Rightarrow> Inr (r, s'\<lparr>state := Some st'\<rparr>)
      | Goes (s3, st3) \<Rightarrow>
          Inr (if Z_NO_FLUSH = Z_FINISH \<and> ZFAST_INPUT_IS_EMPTY s3 \<and> \<not> ZFAST_HAS_BUFFERED_OUTPUT st3
               then Z_STREAM_END else Z_OK,
               s3\<lparr>state := Some st3\<rparr>)) = Inr (Z_OK, s3\<lparr>state := Some st3\<rparr>)"
    unfolding pb db by (simp add: const_defs)
  have inv: "decomp_inv cmp l bs bd (s3\<lparr>state := Some st3\<rparr>) blocks e future"
    unfolding decomp_inv_def
    apply (rule exI [of _ st3], rule exI [of _ "decoded @ [x]"], rule exI [of _ rest'])
    using fields blocks out3 od cap3 in3 w2 rem
    by (simp add: HEADER_SIZE_def)
  have "in_win (s3\<lparr>state := Some st3\<rparr>) = Win w2"
    "length (out_data s2) \<le> length (out_data (s3\<lparr>state := Some st3\<rparr>))"
    using in3 w2 grow by simp_all
  then show ?thesis
    unfolding eq using inv by blast
qed

text \<open>A decompressing call that finds output pending, one that finds a block being
  staged, and one that finds the stream between two blocks.\<close>

lemma read_frame_header:
  assumes "length x < 2 ^ 32" "length (block_payload cmp l x) < 2 ^ 32"
  shows "fastlz_read_header (fastlz_write_header (block_kind x) bs (length (block_payload cmp l x)) (length x))
     = (block_kind x, length x, length (block_payload cmp l x), length x)"
proof -
  have "block_kind x mod 256 = block_kind x" by (simp add: block_kind_def const_defs)
  then show ?thesis
    using read_write_header [of "block_kind x" bs "length (block_payload cmp l x)" "length x" "[]"] assms
    by simp
qed

lemma read_eof_header: "fastlz_read_header (eof_marker bs) = (BLOCK_TYPE_COMPRESSED, 0, 0, 0)"
  using read_write_header [of BLOCK_TYPE_COMPRESSED bs 0 0 "[]"]
  by (simp add: eof_marker_def const_defs)

lemma payload_bound:
  assumes be: "bounded_expansion cmp bs" and l: "l = 1 \<or> l = 2" and xb: "length x \<le> bs"
  shows "length (block_payload cmp l x) \<le> length x + length x div 10"
proof (cases "length x > MIN_BLOCK_SIZE")
  case True
  with be l xb show ?thesis by (auto simp: bounded_expansion_def block_payload_def const_defs)
next
  case False
  then show ?thesis by (simp add: block_payload_def)
qed

lemma decomp_inv_drain:
  assumes st: "state s = Some st" and d: "ZFAST_IS_DECOMPRESSING st" and b: "block_size st = bd"
    and lh: "length (inHdr st) = HEADER_SIZE" and hh: "inHdrOffs st < HEADER_SIZE"
    and bl: "blocks = decoded @ rest" and od: "out_data s @ pending_out st = concat decoded"
    and buf: "ZFAST_HAS_BUFFERED_OUTPUT st" and cap: "dec_size st \<le> length (outBuff st)"
    and s0z: "str_size st = 0"
    and eq: "take (inHdrOffs st) (inHdr st) @ w @ future = wire cmp l bs rest e"
    and in0: "in_win s0 = Win w" and out0: "out_win s0 = Win room" and st0: "state s0 = Some st"
    and od0: "out_data s0 = out_data s"
  shows "\<exists>s'. fastlzlibProcess cmp dcmp s0 flush True = Inr (Z_OK, s')
     \<and> decomp_inv cmp l bs bd s' blocks e future
     \<and> dec_progress s0 w room s'"
proof -
  have sane: "\<not> (is_null (in_win s0) \<and> \<not> ZFAST_INPUT_IS_EMPTY s0)"
     "\<not> (is_null (out_win s0) \<and> \<not> ZFAST_OUTPUT_IS_FULL s0)"
    using in0 out0 by simp_all
  have buf': "outBuffOffs st < dec_size st" using buf by (simp add: ZFAST_HAS_BUFFERED_OUTPUT_def)
  define n where "n = min (dec_size st - outBuffOffs st) (length room)"
  define st' where "st' = st\<lparr>outBuffOffs := outBuffOffs st + n\<rparr>"
  from process_drain_Win [OF out0 buf' cap] obtain s1 where
    dr: "process_drain s0 st = (s1, st')" and in1: "in_win s1 = in_win s0"
    and od1: "out_data s1 = out_data s0 @ take n (drop (outBuffOffs st) (outBuff st))"
    unfolding n_def st'_def by blast
  have P: "fastlzlibProcess cmp dcmp s0 flush True = Inr (Z_OK, s1\<lparr>state := Some st'\<rparr>)"
    using fastlzlibProcess_buffered [OF sane st0 buf, of cmp dcmp flush True] dr by simp
  have po: "take n (drop (outBuffOffs st) (outBuff st)) @ pending_out st' = pending_out st"
    unfolding st'_def by (rule pending_out_drain [OF buf' cap]) (simp add: n_def)
  have "decomp_inv cmp l bs bd (s1\<lparr>state := Some st'\<rparr>) blocks e future"
    unfolding decomp_inv_def
    apply (rule exI [of _ st'], rule exI [of _ decoded], rule exI [of _ rest])
    using d b lh hh bl od cap s0z eq in1 in0 od1 od0 po
    by (simp add: st'_def ZFAST_IS_DECOMPRESSING_def ZFAST_IS_COMPRESSING_def
        ZFAST_HAS_BUFFERED_OUTPUT_def)
  moreover have "dec_progress s0 w room (s1\<lparr>state := Some st'\<rparr>)"
  proof -
    have "length (take n (drop (outBuffOffs st) (outBuff st))) = n"
      using cap by (simp add: n_def)
    then have "length (out_data s1) = length (out_data s0) + n" using od1 by simp
    moreover have "room \<noteq> [] \<Longrightarrow> 0 < n" using buf' by (simp add: n_def)
    ultimately show ?thesis
      using in1 in0 st0 buf by (auto simp: dec_progress_def pending_def)
  qed
  ultimately show ?thesis unfolding P by blast
qed

lemma append_eq_split: "a @ b = c @ d \<Longrightarrow> length a = length c \<Longrightarrow> a = c \<and> b = d"
  by simp

lemma decompress_input_stage:
  assumes ll: "lossless cmp dcmp bs" and l: "l = 1 \<or> l = 2" and xb: "length x \<le> bs"
    and d: "ZFAST_IS_DECOMPRESSING st1" and b: "block_size st1 = bd"
    and lenH: "length (inHdr st1) = 20" and h0: "inHdrOffs st1 = 0"
    and nobuf: "\<not> ZFAST_HAS_BUFFERED_OUTPUT st1"
    and bt: "block_type st1 = block_kind x" and ss: "str_size st1 = length (block_payload cmp l x)"
    and ds: "dec_size st1 = length x"
    and ic: "inBuffOffs st1 < str_size st1" and il: "inBuffOffs st1 \<le> length (inBuff st1)"
    and eq: "take (inBuffOffs st1) (inBuff st1) @ w1 @ future = block_payload cmp l x @ wire cmp l bs rest' e"
    and in1: "in_win s1 = Win w1" and out1: "out_win s1 = Win room"
    and od: "out_data s1 = concat decoded" and bl: "blocks = decoded @ x # rest'"
  shows "\<exists>s'.
     (case process_input s1 st1 None Z_NO_FLUSH of
        (s2, st2, in2) \<Rightarrow>
          (case (case in2 of
                   None \<Rightarrow> Goes (s2, st2)
                 | Some xs \<Rightarrow> process_block cmp dcmp s2 st2 xs Z_NO_FLUSH)
           of
             Fails f \<Rightarrow> Inl f
           | Returns r s' st' \<Rightarrow> Inr (r, s'\<lparr>state := Some st'\<rparr>)
           | Goes (s3, st3) \<Rightarrow>
               Inr (if Z_NO_FLUSH = Z_FINISH \<and> ZFAST_INPUT_IS_EMPTY s3
                       \<and> \<not> ZFAST_HAS_BUFFERED_OUTPUT st3
                    then Z_STREAM_END else Z_OK,
                    s3\<lparr>state := Some st3\<rparr>))) = Inr (Z_OK, s')
     \<and> decomp_inv cmp l bs bd s' blocks e future
     \<and> length (out_data s1) \<le> length (out_data s')
     \<and> length (window_bytes (in_win s')) \<le> length w1
     \<and> (w1 \<noteq> [] \<longrightarrow> length (window_bytes (in_win s')) < length w1)"
proof -
  define i where "i = inBuffOffs st1"
  define c where "c = length (block_payload cmp l x)"
  define n where "n = min (c - i) (length w1)"
  have ic': "i < c" and il': "i \<le> length (inBuff st1)" and ss': "str_size st1 = c"
    using ic il ss by (simp_all add: i_def c_def)
  from process_input_None [OF in1 i_def [symmetric] ss' ic' il' n_def, of Z_NO_FLUSH]
  obtain s2 st2 r where pi: "process_input s1 st1 None Z_NO_FLUSH = (s2, st2, r)"
    and in2: "in_win s2 = Win (drop n w1)" and out2: "out_win s2 = out_win s1"
    and od2: "out_data s2 = out_data s1"
    and tk: "take (i + n) (inBuff st2) = take i (inBuff st1) @ take n w1"
    and len: "i + n \<le> length (inBuff st2)"
    and res: "if i + n = c
         then st2 = st1\<lparr>inBuff := inBuff st2, inBuffOffs := c\<rparr> \<and> r = Some (take c (inBuff st2))
         else if Z_NO_FLUSH \<noteq> Z_NO_FLUSH
         then st2 = st1\<lparr>inBuff := inBuff st2, inBuffOffs := i + n, str_size := i + n\<rparr>
              \<and> r = Some (take (i + n) (inBuff st2))
         else st2 = st1\<lparr>inBuff := inBuff st2, inBuffOffs := i + n\<rparr> \<and> r = None"
    by blast
  define ib2 where "ib2 = inBuff st2"
  note res' = res [folded ib2_def]
  have out2': "out_win s2 = Win room" using out2 out1 by simp
  have od2': "out_data s2 = concat decoded" using od2 od by simp
  have td: "take n w1 @ drop n w1 @ future = w1 @ future"
    using append_take_drop_id [of n w1] by (metis append_assoc)
  have split: "(take i (inBuff st1) @ take n w1) @ drop n w1 @ future
      = block_payload cmp l x @ wire cmp l bs rest' e"
    unfolding append_assoc td using eq by (simp add: i_def)
  have lpre: "length (take i (inBuff st1) @ take n w1) = i + n"
    using il' by (simp add: n_def)
  have npos: "w1 \<noteq> [] \<Longrightarrow> 0 < n" using ic' by (simp add: n_def)
  have shrink: "length (drop n w1) \<le> length w1"
    "w1 \<noteq> [] \<Longrightarrow> length (drop n w1) < length w1"
    using npos by simp_all
  show ?thesis
  proof (cases "i + n = c")
    case True
    then have st2: "st2 = st1\<lparr>inBuff := ib2, inBuffOffs := c\<rparr>" and r: "r = Some (take c ib2)"
      using res' by simp_all
    have "length (take i (inBuff st1) @ take n w1) = length (block_payload cmp l x)"
      using lpre True by (simp add: c_def)
    from append_eq_split [OF split this]
    have p: "take i (inBuff st1) @ take n w1 = block_payload cmp l x"
      and rem: "drop n w1 @ future = wire cmp l bs rest' e"
      by blast+
    have rp: "r = Some (block_payload cmp l x)"
      using r tk p True by (simp add: ib2_def)
    have f2: "ZFAST_IS_DECOMPRESSING st2" "block_size st2 = bd" "length (inHdr st2) = 20"
      "inHdrOffs st2 = 0" "block_type st2 = block_kind x" "str_size st2 = length (block_payload cmp l x)"
      "dec_size st2 = length x"
      using d b lenH h0 bt ss ds
      by (simp_all add: st2 ZFAST_IS_DECOMPRESSING_def ZFAST_IS_COMPRESSING_def)
    from decompress_tail [OF ll l f2 xb in2 out2' od2' bl rem]
    obtain s' where
      "(case process_block cmp dcmp s2 st2 (block_payload cmp l x) Z_NO_FLUSH of
          Fails f \<Rightarrow> Inl f
        | Returns r s' st' \<Rightarrow> Inr (r, s'\<lparr>state := Some st'\<rparr>)
        | Goes (s3, st3) \<Rightarrow>
            Inr (if Z_NO_FLUSH = Z_FINISH \<and> ZFAST_INPUT_IS_EMPTY s3 \<and> \<not> ZFAST_HAS_BUFFERED_OUTPUT st3
                 then Z_STREAM_END else Z_OK,
                 s3\<lparr>state := Some st3\<rparr>)) = Inr (Z_OK, s')"
      and "decomp_inv cmp l bs bd s' blocks e future"
      and "in_win s' = Win (drop n w1)" and "length (out_data s2) \<le> length (out_data s')"
      by blast
    then show ?thesis
      unfolding pi rp
      apply (intro exI [of _ s'])
      using shrink od2 by simp
  next
    case False
    then have st2: "st2 = st1\<lparr>inBuff := ib2, inBuffOffs := i + n\<rparr>" and r: "r = None"
      using res' by simp_all
    have lt: "i + n < c" using False ic' by (simp add: n_def)
    then have nw: "n = length w1" by (simp add: n_def)
    have tk': "take (i + n) ib2 = take i (inBuff st1) @ w1"
      using tk nw by (simp add: ib2_def)
    have len': "i + n \<le> length ib2" using len by (simp add: ib2_def)
    have po: "pending_out st1 = []"
      using nobuf by (simp add: pending_out_def ZFAST_HAS_BUFFERED_OUTPUT_def)
    have cz: "c \<noteq> 0" using ic' by simp
    have eq': "(case process_input s1 st1 None Z_NO_FLUSH of
        (s2, st2, in2) \<Rightarrow>
          (case (case in2 of
                   None \<Rightarrow> Goes (s2, st2)
                 | Some xs \<Rightarrow> process_block cmp dcmp s2 st2 xs Z_NO_FLUSH)
           of
             Fails f \<Rightarrow> Inl f
           | Returns r s' st' \<Rightarrow> Inr (r, s'\<lparr>state := Some st'\<rparr>)
           | Goes (s3, st3) \<Rightarrow>
               Inr (if Z_NO_FLUSH = Z_FINISH \<and> ZFAST_INPUT_IS_EMPTY s3
                       \<and> \<not> ZFAST_HAS_BUFFERED_OUTPUT st3
                    then Z_STREAM_END else Z_OK,
                    s3\<lparr>state := Some st3\<rparr>))) = Inr (Z_OK, s2\<lparr>state := Some st2\<rparr>)"
      unfolding pi r by (simp add: const_defs)
    have "decomp_inv cmp l bs bd (s2\<lparr>state := Some st2\<rparr>) blocks e future"
      unfolding decomp_inv_def
      apply (rule exI [of _ st2], rule exI [of _ decoded], rule exI [of _ "x # rest'"])
      using d b lenH h0 nobuf bt ss' ds bl od2' po in2 nw tk' len' lt eq cz
      by (simp add: st2 ZFAST_IS_DECOMPRESSING_def ZFAST_IS_COMPRESSING_def
          ZFAST_HAS_BUFFERED_OUTPUT_def pending_out_def HEADER_SIZE_def i_def c_def)
    moreover have "length (out_data s1) \<le> length (out_data (s2\<lparr>state := Some st2\<rparr>))"
      "length (window_bytes (in_win (s2\<lparr>state := Some st2\<rparr>))) \<le> length w1"
      "w1 \<noteq> [] \<longrightarrow> length (window_bytes (in_win (s2\<lparr>state := Some st2\<rparr>))) < length w1"
      using od2 in2 shrink by simp_all
    ultimately show ?thesis unfolding eq' by blast
  qed
qed

lemma decompress_idle:
  assumes ll: "lossless cmp dcmp bs" and be: "bounded_expansion cmp bs" and l: "l = 1 \<or> l = 2"
    and bsd: "bs \<le> bd" and big: "bd \<le> 2 ^ 20"
    and st0: "state s0 = Some st" and d: "ZFAST_IS_DECOMPRESSING st" and b: "block_size st = bd"
    and lh: "length (inHdr st) = 20" and hh: "inHdrOffs st < 20"
    and bl: "blocks = decoded @ rest"
    and wfr: "list_all (\<lambda>b. b \<noteq> [] \<and> length b \<le> bs) rest"
    and od: "out_data s0 = concat decoded"
    and nobuf: "\<not> ZFAST_HAS_BUFFERED_OUTPUT st" and s0z: "str_size st = 0"
    and eq: "take (inHdrOffs st) (inHdr st) @ w @ future = wire cmp l bs rest e"
    and in0: "in_win s0 = Win w" and out0: "out_win s0 = Win room"
  shows "\<exists>r s'. fastlzlibProcess cmp dcmp s0 Z_NO_FLUSH True = Inr (r, s')
     \<and> (if r = Z_OK then decomp_inv cmp l bs bd s' blocks e future \<and> dec_progress s0 w room s'
         else r = Z_STREAM_END \<and> e \<and> out_data s' = concat blocks)"
proof -
  have np: "\<not> pending s0" using st0 nobuf by (simp add: pending_def)
  have progI: "dec_progress s0 w room s'"
    if "length (out_data s0) \<le> length (out_data s')"
      "length (window_bytes (in_win s')) \<le> length w"
      "w \<noteq> [] \<longrightarrow> length (window_bytes (in_win s')) < length w" for s'
    using that np by (simp add: dec_progress_def)
  have sane: "\<not> (is_null (in_win s0) \<and> \<not> ZFAST_INPUT_IS_EMPTY s0)"
     "\<not> (is_null (out_win s0) \<and> \<not> ZFAST_OUTPUT_IS_FULL s0)"
    using in0 out0 by simp_all
  note P = fastlzlibProcess_unbuffered [OF sane st0 nobuf, of cmp dcmp Z_NO_FLUSH True]
  have H0: "(if str_size st = 0 then process_header s0 st Z_NO_FLUSH True else Goes (s0, st, None))
      = process_header s0 st Z_NO_FLUSH True"
    using s0z by simp
  have po: "pending_out st = []"
    using nobuf by (simp add: pending_out_def ZFAST_HAS_BUFFERED_OUTPUT_def)
  define h where "h = inHdrOffs st"
  have h: "inHdrOffs st = h" by (simp add: h_def)
  have h20: "h < 20" using hh by (simp add: h_def)
  note eqh = eq [unfolded h]
  show ?thesis
  proof (cases "h + length w < 20")
    case True
    from decompress_header_short [OF in0 h lh True] obtain s1 ih where
      dh: "decompress_header s0 st True = Returns Z_OK s1 (st\<lparr>inHdr := ih, inHdrOffs := h + length w\<rparr>)"
      and lih: "length ih = 20" and tk: "take (h + length w) ih = take h (inHdr st) @ w"
      and in1: "in_win s1 = Win []" and od1: "out_data s1 = out_data s0"
      by blast
    define st1 where "st1 = st\<lparr>inHdr := ih, inHdrOffs := h + length w\<rparr>"
    have ph: "process_header s0 st Z_NO_FLUSH True = Returns Z_OK s1 st1"
      by (simp add: process_header_def d dh st1_def)
    have PP: "fastlzlibProcess cmp dcmp s0 Z_NO_FLUSH True = Inr (Z_OK, s1\<lparr>state := Some st1\<rparr>)"
      unfolding P H0 by (simp add: ph)
    have "decomp_inv cmp l bs bd (s1\<lparr>state := Some st1\<rparr>) blocks e future"
      unfolding decomp_inv_def
      apply (rule exI [of _ st1], rule exI [of _ decoded], rule exI [of _ rest])
      using d b lih True bl od od1 po nobuf s0z in1 tk eqh
      by (simp add: st1_def ZFAST_IS_DECOMPRESSING_def ZFAST_IS_COMPRESSING_def
          ZFAST_HAS_BUFFERED_OUTPUT_def pending_out_def HEADER_SIZE_def)
    moreover have "dec_progress s0 w room (s1\<lparr>state := Some st1\<rparr>)"
      by (rule progI) (use in1 od1 in auto)
    ultimately show ?thesis
      unfolding PP by (intro exI [of _ Z_OK] exI [of _ "s1\<lparr>state := Some st1\<rparr>"]) simp
  next
    case False
    then have en: "20 \<le> h + length w" by simp
    define hdr where "hdr = take h (inHdr st) @ take (20 - h) w"
    define w1 where "w1 = drop (20 - h) w"
    have lhdr: "length hdr = 20" using lh h20 en by (simp add: hdr_def)
    have td: "take (20 - h) w @ drop (20 - h) w @ future = w @ future"
      using append_take_drop_id [of "20 - h" w] by (metis append_assoc)
    have split: "hdr @ w1 @ future = wire cmp l bs rest e"
      unfolding hdr_def w1_def append_assoc td by (rule eqh)
    have wne: "w \<noteq> []" using en h20 by auto
    have w1lt: "length w1 < length w"
    proof -
      have "0 < length w" using wne by simp
      moreover have "0 < 20 - h" using h20 by simp
      ultimately show ?thesis unfolding w1_def length_drop by linarith
    qed
    have bbs: "block_size st' = bd \<Longrightarrow> BUFFER_BLOCK_SIZE st' = bd + bd div 10 + 40" for st'
      using big by (simp add: BUFFER_BLOCK_SIZE_def BLOCK_SIZE_def const_defs)
    show ?thesis
    proof (cases rest)
      case Nil
      then have W: "wire cmp l bs rest e = (if e then eof_marker bs else [])"
        by (simp add: wire_Nil)
      have e: e using split lhdr W by (cases e) auto
      have "hdr @ w1 @ future = eof_marker bs @ []" using split W e by simp
      from append_eq_split [OF this] have hd: "hdr = eof_marker bs"
        using lhdr by (simp add: length_eof_marker)
      have rd: "fastlz_read_header (take h (inHdr st) @ take (20 - h) w)
          = (BLOCK_TYPE_COMPRESSED, 0, 0, 0)"
        using read_eof_header [of bs] hd by (simp add: hdr_def)
      define st1 where "st1 = (\<lambda>ih. st\<lparr>inHdr := ih, inHdrOffs := 0,
        block_type := BLOCK_TYPE_COMPRESSED, str_size := 0, dec_size := 0\<rparr>)"
      from decompress_header_enough [OF in0 h h20 lh en rd] obtain s1 ih where
        dh: "decompress_header s0 st True = Goes (s1, st1 ih, 0)"
        and in1: "in_win s1 = Win w1" and od1: "out_data s1 = out_data s0"
        unfolding w1_def st1_def by blast
      have f1: "block_type (st1 ih) = BLOCK_TYPE_COMPRESSED" "str_size (st1 ih) = 0"
        "dec_size (st1 ih) = 0" "block_size (st1 ih) = bd"
        using b by (simp_all add: st1_def)
      have ph: "process_header s0 st Z_NO_FLUSH True
          = Returns Z_STREAM_END s1 (st1 ih\<lparr>outBuffOffs := 0\<rparr>)"
        using process_header_decompress [OF d dh _ _ _ _ in1, of Z_NO_FLUSH] f1
        by (simp add: bbs)
      have PP: "fastlzlibProcess cmp dcmp s0 Z_NO_FLUSH True
          = Inr (Z_STREAM_END, s1\<lparr>state := Some (st1 ih\<lparr>outBuffOffs := 0\<rparr>)\<rparr>)"
        unfolding P H0 by (simp add: ph)
      have "out_data s1 = concat blocks" using od1 od bl Nil by simp
      then show ?thesis
        unfolding PP
        apply (intro exI [of _ Z_STREAM_END] exI [of _ "s1\<lparr>state := Some (st1 ih\<lparr>outBuffOffs := 0\<rparr>)\<rparr>"])
        using e by (simp add: const_defs)
    next
      case (Cons x rest')
      define c where "c = length (block_payload cmp l x)"
      define H where "H = fastlz_write_header (block_kind x) bs c (length x)"
      from wfr Cons have xne: "x \<noteq> []" and xb: "length x \<le> bs" by simp_all
      have pb: "c \<le> length x + length x div 10"
        unfolding c_def by (rule payload_bound [OF be l xb])
      have xd: "length x \<le> bd" using xb bsd by simp
      have x32: "length x < 2 ^ 32" using xd big by simp
      have c32: "length (block_payload cmp l x) < 2 ^ 32" using pb xd big by (simp add: c_def)
      have lH: "length H = 20" by (simp add: H_def length_write_header [unfolded HEADER_SIZE_def])
      have W: "wire cmp l bs rest e = H @ block_payload cmp l x @ wire cmp l bs rest' e"
        by (simp add: Cons wire_Cons H_def c_def)
      have "hdr @ w1 @ future = H @ block_payload cmp l x @ wire cmp l bs rest' e"
        using split W by simp
      from append_eq_split [OF this] lhdr lH
      have hd: "hdr = H" and rem1: "w1 @ future = block_payload cmp l x @ wire cmp l bs rest' e"
        by simp_all
      have rd: "fastlz_read_header (take h (inHdr st) @ take (20 - h) w)
          = (block_kind x, length x, c, length x)"
        using read_frame_header [OF x32 c32, of bs] hd by (simp add: hdr_def H_def c_def)
      define st1 where "st1 = (\<lambda>ih. st\<lparr>inHdr := ih, inHdrOffs := 0,
        block_type := block_kind x, str_size := c, dec_size := length x\<rparr>)"
      from decompress_header_enough [OF in0 h h20 lh en rd] obtain s1 ih where
        dh: "decompress_header s0 st True = Goes (s1, st1 ih, length x)"
        and lih: "length ih = 20"
        and in1: "in_win s1 = Win w1" and out1: "out_win s1 = out_win s0"
        and od1: "out_data s1 = out_data s0"
        unfolding w1_def st1_def by blast
      have f1: "block_type (st1 ih) = block_kind x" "str_size (st1 ih) = c"
        "dec_size (st1 ih) = length x" "block_size (st1 ih) = bd"
        using b by (simp_all add: st1_def)
      have t1: "block_kind x = BLOCK_TYPE_RAW \<or> block_kind x = BLOCK_TYPE_COMPRESSED"
        by (simp add: block_kind_def)
      define st2 where "st2 = st1 ih\<lparr>outBuffOffs := length x\<rparr>"
      have ph: "process_header s0 st Z_NO_FLUSH True
          = (if c \<le> length w1 then Goes (inSeek s1 c, st2, Some (take c w1))
             else Goes (s1, st2\<lparr>inBuffOffs := 0\<rparr>, None))"
        using process_header_decompress [OF d dh _ _ _ _ in1, of Z_NO_FLUSH] f1 t1 xd pb xne
        by (simp add: bbs st2_def)
      have f2: "ZFAST_IS_DECOMPRESSING st2" "block_size st2 = bd" "length (inHdr st2) = 20"
        "inHdrOffs st2 = 0" "block_type st2 = block_kind x" "str_size st2 = length (block_payload cmp l x)"
        "dec_size st2 = length x"
        using d b lih
        by (simp_all add: st2_def st1_def c_def ZFAST_IS_DECOMPRESSING_def ZFAST_IS_COMPRESSING_def)
      have bl': "blocks = decoded @ x # rest'" using bl Cons by simp
      have od1': "out_data s1 = concat decoded" using od1 od by simp
      have out1': "out_win s1 = Win room" using out1 out0 by simp
      show ?thesis
      proof (cases "c \<le> length w1")
        case True
        have "take c w1 @ drop c w1 @ future = block_payload cmp l x @ wire cmp l bs rest' e"
          using rem1 append_take_drop_id [of c w1] by (metis append_assoc)
        from append_eq_split [OF this] True
        have tp: "take c w1 = block_payload cmp l x"
          and rem: "drop c w1 @ future = wire cmp l bs rest' e"
          by (simp_all add: c_def)
        define s2 where "s2 = inSeek s1 c"
        have in2: "in_win s2 = Win (drop c w1)" and out2: "out_win s2 = Win room"
          and od2: "out_data s2 = concat decoded"
          using in1 out1' od1' by (simp_all add: s2_def inSeek_def)
        have ph': "process_header s0 st Z_NO_FLUSH True = Goes (s2, st2, Some (block_payload cmp l x))"
          using ph True tp by (simp add: s2_def)
        have PP: "fastlzlibProcess cmp dcmp s0 Z_NO_FLUSH True =
          (case process_block cmp dcmp s2 st2 (block_payload cmp l x) Z_NO_FLUSH of
             Fails f \<Rightarrow> Inl f
           | Returns r s' st' \<Rightarrow> Inr (r, s'\<lparr>state := Some st'\<rparr>)
           | Goes (s3, st3) \<Rightarrow>
               Inr (if Z_NO_FLUSH = Z_FINISH \<and> ZFAST_INPUT_IS_EMPTY s3 \<and> \<not> ZFAST_HAS_BUFFERED_OUTPUT st3
                    then Z_STREAM_END else Z_OK,
                    s3\<lparr>state := Some st3\<rparr>))"
          unfolding P H0 by (simp add: ph' process_input_def)
        from decompress_tail [OF ll l f2 xb in2 out2 od2 bl' rem]
        obtain s' where "fastlzlibProcess cmp dcmp s0 Z_NO_FLUSH True = Inr (Z_OK, s')"
          and "decomp_inv cmp l bs bd s' blocks e future"
          and i': "in_win s' = Win (drop c w1)" and o': "length (out_data s2) \<le> length (out_data s')"
          unfolding PP by blast
        moreover have "dec_progress s0 w room s'"
          by (rule progI) (use i' o' od2 od w1lt in auto)
        ultimately show ?thesis
          by (intro exI [of _ Z_OK] exI [of _ s']) simp
      next
        case False
        define st3 where "st3 = st2\<lparr>inBuffOffs := 0\<rparr>"
        have cpos: "block_payload cmp l x \<noteq> []" using False by (auto simp: c_def)
        have ph': "process_header s0 st Z_NO_FLUSH True = Goes (s1, st3, None)"
          using ph False by (simp add: st3_def)
        have f3: "ZFAST_IS_DECOMPRESSING st3" "block_size st3 = bd" "length (inHdr st3) = 20"
          "inHdrOffs st3 = 0" "\<not> ZFAST_HAS_BUFFERED_OUTPUT st3"
          "block_type st3 = block_kind x" "str_size st3 = length (block_payload cmp l x)"
          "dec_size st3 = length x" "inBuffOffs st3 < str_size st3"
          "inBuffOffs st3 \<le> length (inBuff st3)"
          using f2 False cpos
          by (simp_all add: st3_def ZFAST_IS_DECOMPRESSING_def ZFAST_IS_COMPRESSING_def
              ZFAST_HAS_BUFFERED_OUTPUT_def st2_def c_def)
        have eq3: "take (inBuffOffs st3) (inBuff st3) @ w1 @ future
            = block_payload cmp l x @ wire cmp l bs rest' e"
          using rem1 by (simp add: st3_def)
        have PP: "fastlzlibProcess cmp dcmp s0 Z_NO_FLUSH True =
          (case process_input s1 st3 None Z_NO_FLUSH of
            (s2, st2, in2) \<Rightarrow>
              (case (case in2 of
                       None \<Rightarrow> Goes (s2, st2)
                     | Some xs \<Rightarrow> process_block cmp dcmp s2 st2 xs Z_NO_FLUSH)
               of
                 Fails f \<Rightarrow> Inl f
               | Returns r s' st' \<Rightarrow> Inr (r, s'\<lparr>state := Some st'\<rparr>)
               | Goes (s3, st3) \<Rightarrow>
                   Inr (if Z_NO_FLUSH = Z_FINISH \<and> ZFAST_INPUT_IS_EMPTY s3
                           \<and> \<not> ZFAST_HAS_BUFFERED_OUTPUT st3
                        then Z_STREAM_END else Z_OK,
                        s3\<lparr>state := Some st3\<rparr>)))"
          unfolding P H0 by (simp add: ph')
        from decompress_input_stage [OF ll l xb f3 eq3 in1 out1' od1' bl']
        obtain s' where "fastlzlibProcess cmp dcmp s0 Z_NO_FLUSH True = Inr (Z_OK, s')"
          and "decomp_inv cmp l bs bd s' blocks e future"
          and o': "length (out_data s1) \<le> length (out_data s')"
          and i': "length (window_bytes (in_win s')) \<le> length w1"
          unfolding PP by blast
        moreover have "dec_progress s0 w room s'"
          by (rule progI) (use i' o' od1 w1lt in auto)
        ultimately show ?thesis
          by (intro exI [of _ Z_OK] exI [of _ s']) simp
      qed
    qed
  qed
qed

text \<open>One decompressing call keeps the invariant and moves the cursors, or ends the
  stream.\<close>

lemma decompress_step:
  assumes inv: "decomp_inv cmp l bs bd s blocks e (extra @ future)"
    and ll: "lossless cmp dcmp bs" and be: "bounded_expansion cmp bs" and l: "l = 1 \<or> l = 2"
    and wf: "list_all (\<lambda>b. b \<noteq> [] \<and> length b \<le> bs) blocks"
    and bsd: "bs \<le> bd" and big: "bd \<le> 2 ^ 20"
  shows "\<exists>r s'. fastlzlibDecompress cmp dcmp (offer s extra room) = Inr (r, s')
     \<and> (if r = Z_OK
         then decomp_inv cmp l bs bd s' blocks e future
              \<and> dec_progress (offer s extra room) (window_bytes (in_win s) @ extra) room s'
         else r = Z_STREAM_END \<and> e \<and> out_data s' = concat blocks)"
proof -
  from inv obtain st decoded rest where st: "state s = Some st"
    and d: "ZFAST_IS_DECOMPRESSING st" and b: "block_size st = bd"
    and lh: "length (inHdr st) = HEADER_SIZE" and hh: "inHdrOffs st < HEADER_SIZE"
    and bl: "blocks = decoded @ rest"
    and od: "out_data s @ pending_out st = concat decoded"
    and cap0: "if ZFAST_HAS_BUFFERED_OUTPUT st then dec_size st \<le> length (outBuff st) else True"
    and stage: "if str_size st = 0
            then take (inHdrOffs st) (inHdr st) @ window_bytes (in_win s) @ extra @ future
                   = wire cmp l bs rest e
            else inHdrOffs st = 0 \<and> \<not> ZFAST_HAS_BUFFERED_OUTPUT st
                 \<and> inBuffOffs st < str_size st \<and> inBuffOffs st \<le> length (inBuff st)
                 \<and> (\<exists>x rest'. rest = x # rest' \<and> block_type st = block_kind x
                       \<and> str_size st = length (block_payload cmp l x) \<and> dec_size st = length x
                       \<and> take (inBuffOffs st) (inBuff st) @ window_bytes (in_win s) @ extra @ future
                            = block_payload cmp l x @ wire cmp l bs rest' e)"
    unfolding decomp_inv_def by blast
  define s0 where "s0 = offer s extra room"
  define w where "w = window_bytes (in_win s) @ extra"
  have in0: "in_win s0 = Win w" and out0: "out_win s0 = Win room" and st0: "state s0 = Some st"
    and od0: "out_data s0 = out_data s"
    using st by (simp_all add: s0_def w_def offer_def)
  have FD: "fastlzlibDecompress cmp dcmp s0 = fastlzlibProcess cmp dcmp s0 Z_NO_FLUSH True"
    using st0 d by (simp add: fastlzlibDecompress_def fastlzlibDecompress2_def)
  have wfr: "list_all (\<lambda>b. b \<noteq> [] \<and> length b \<le> bs) rest"
    using wf bl by simp
  have lh': "length (inHdr st) = 20" and hh': "inHdrOffs st < 20"
    using lh hh by (simp_all add: HEADER_SIZE_def)
  show ?thesis
  proof (cases "ZFAST_HAS_BUFFERED_OUTPUT st")
    case True
    have cap: "dec_size st \<le> length (outBuff st)" using cap0 True by simp
    have s0z: "str_size st = 0" using stage True by (auto split: if_splits)
    have eq: "take (inHdrOffs st) (inHdr st) @ w @ future = wire cmp l bs rest e"
      using stage s0z by (simp add: w_def)
    from decomp_inv_drain [where flush = Z_NO_FLUSH and dcmp = dcmp,
        OF st d b lh hh bl od True cap s0z eq in0 out0 st0 od0]
    obtain s' where "fastlzlibProcess cmp dcmp s0 Z_NO_FLUSH True = Inr (Z_OK, s')"
      and "decomp_inv cmp l bs bd s' blocks e future"
      and "dec_progress s0 w room s'"
      by blast
    then show ?thesis
      unfolding s0_def [symmetric] w_def [symmetric] FD
      by (intro exI [of _ Z_OK] exI [of _ s']) simp
  next
    case nobuf: False
    then have po: "pending_out st = []"
      by (simp add: pending_out_def ZFAST_HAS_BUFFERED_OUTPUT_def)
    have od': "out_data s0 = concat decoded" using od po od0 by simp
    show ?thesis
    proof (cases "str_size st = 0")
      case True
      have eq: "take (inHdrOffs st) (inHdr st) @ w @ future = wire cmp l bs rest e"
        using stage True by (simp add: w_def)
      from decompress_idle [OF ll be l bsd big st0 d b lh' hh' bl wfr od' nobuf True eq in0 out0]
      show ?thesis
        unfolding s0_def [symmetric] w_def [symmetric] FD .
    next
      case False
      with stage obtain x rest' where h0: "inHdrOffs st = 0"
        and ic: "inBuffOffs st < str_size st" and il: "inBuffOffs st \<le> length (inBuff st)"
        and rest: "rest = x # rest'" and bt: "block_type st = block_kind x"
        and ss: "str_size st = length (block_payload cmp l x)" and ds: "dec_size st = length x"
        and eq: "take (inBuffOffs st) (inBuff st) @ w @ future
                            = block_payload cmp l x @ wire cmp l bs rest' e"
        by (auto simp: w_def)
      have xb: "length x \<le> bs" using wfr rest by simp
      have bl': "blocks = decoded @ x # rest'" using bl rest by simp
      have sane: "\<not> (is_null (in_win s0) \<and> \<not> ZFAST_INPUT_IS_EMPTY s0)"
         "\<not> (is_null (out_win s0) \<and> \<not> ZFAST_OUTPUT_IS_FULL s0)"
        using in0 out0 by simp_all
      note P = fastlzlibProcess_unbuffered [OF sane st0 nobuf, of cmp dcmp Z_NO_FLUSH True]
      have H0: "(if str_size st = 0 then process_header s0 st Z_NO_FLUSH True
                 else Goes (s0, st, None)) = Goes (s0, st, None)"
        using False by simp
      have PP: "fastlzlibProcess cmp dcmp s0 Z_NO_FLUSH True =
          (case process_input s0 st None Z_NO_FLUSH of
            (s2, st2, in2) \<Rightarrow>
              (case (case in2 of
                       None \<Rightarrow> Goes (s2, st2)
                     | Some xs \<Rightarrow> process_block cmp dcmp s2 st2 xs Z_NO_FLUSH)
               of
                 Fails f \<Rightarrow> Inl f
               | Returns r s' st' \<Rightarrow> Inr (r, s'\<lparr>state := Some st'\<rparr>)
               | Goes (s3, st3) \<Rightarrow>
                   Inr (if Z_NO_FLUSH = Z_FINISH \<and> ZFAST_INPUT_IS_EMPTY s3
                           \<and> \<not> ZFAST_HAS_BUFFERED_OUTPUT st3
                        then Z_STREAM_END else Z_OK,
                        s3\<lparr>state := Some st3\<rparr>)))"
        unfolding P H0 by simp
      from decompress_input_stage [OF ll l xb d b lh' h0 nobuf bt ss ds ic il eq in0 out0 od' bl']
      obtain s' where "fastlzlibProcess cmp dcmp s0 Z_NO_FLUSH True = Inr (Z_OK, s')"
        and "decomp_inv cmp l bs bd s' blocks e future"
        and o': "length (out_data s0) \<le> length (out_data s')"
        and i': "length (window_bytes (in_win s')) \<le> length w"
          "w \<noteq> [] \<longrightarrow> length (window_bytes (in_win s')) < length w"
        unfolding PP by blast
      moreover have "dec_progress s0 w room s'"
        using o' i' st0 nobuf by (simp add: dec_progress_def pending_def)
      ultimately show ?thesis
        unfolding s0_def [symmetric] w_def [symmetric] FD
        by (intro exI [of _ Z_OK] exI [of _ s']) simp
    qed
  qed
qed

text \<open>A decompressing run keeps the invariant.\<close>

lemma decompress_run_inv:
  assumes ll: "lossless cmp dcmp bs" and be: "bounded_expansion cmp bs" and l: "l = 1 \<or> l = 2"
    and wf: "list_all (\<lambda>b. b \<noteq> [] \<and> length b \<le> bs) blocks"
    and bsd: "bs \<le> bd" and big: "bd \<le> 2 ^ 20"
  shows "decomp_inv cmp l bs bd s blocks e (concat (map fst ds) @ future)
    \<Longrightarrow> \<exists>r s'. decompress_run cmp dcmp s ds = Inr (r, s')
          \<and> (if r = Z_OK then decomp_inv cmp l bs bd s' blocks e future
              else r = Z_STREAM_END \<and> e \<and> out_data s' = concat blocks)"
proof (induction ds arbitrary: s)
  case Nil
  then show ?case by simp
next
  case (Cons c ds)
  obtain extra room where c: "c = (extra, room)" by (cases c) auto
  from Cons.prems have inv: "decomp_inv cmp l bs bd s blocks e (extra @ concat (map fst ds) @ future)"
    by (simp add: c)
  from decompress_step [OF inv ll be l wf bsd big, of room]
  obtain r s' where step: "fastlzlibDecompress cmp dcmp (offer s extra room) = Inr (r, s')"
    and res0: "if r = Z_OK
         then decomp_inv cmp l bs bd s' blocks e (concat (map fst ds) @ future)
              \<and> dec_progress (offer s extra room) (window_bytes (in_win s) @ extra) room s'
         else r = Z_STREAM_END \<and> e \<and> out_data s' = concat blocks"
    by blast
  have res: "if r = Z_OK then decomp_inv cmp l bs bd s' blocks e (concat (map fst ds) @ future)
         else r = Z_STREAM_END \<and> e \<and> out_data s' = concat blocks"
    using res0 by (simp split: if_splits)
  have run: "decompress_run cmp dcmp s (c # ds)
      = (if r = Z_OK then decompress_run cmp dcmp s' ds else Inr (r, s'))"
    using step by (simp add: c)
  show ?case
  proof (cases "r = Z_OK")
    case True
    with res have "decomp_inv cmp l bs bd s' blocks e (concat (map fst ds) @ future)" by simp
    from Cons.IH [OF this] show ?thesis unfolding run using True by simp
  next
    case False
    with res show ?thesis unfolding run
      by (intro exI [of _ r] exI [of _ s']) simp
  qed
qed

lemma frame_not_Nil: "frame cmp l bs x \<noteq> []"
  using length_frame [of cmp l bs x] by auto

lemma wire_Nil_iff: "wire cmp l bs blocks e = [] \<longleftrightarrow> blocks = [] \<and> \<not> e"
proof (cases blocks)
  case Nil
  then show ?thesis using length_eof_marker [of bs] by (auto simp: wire_def)
next
  case (Cons x xs)
  then show ?thesis using frame_not_Nil [of cmp l bs x] by (simp add: wire_def)
qed

lemma decomp_inv_prefix:
  assumes "decomp_inv cmp l bs bd s blocks e future"
  shows "take (length (out_data s)) (concat blocks @ ys) = out_data s"
proof -
  from assms obtain st decoded rest where bl: "blocks = decoded @ rest"
    and od: "out_data s @ pending_out st = concat decoded"
    unfolding decomp_inv_def by blast
  have "concat blocks @ ys = out_data s @ (pending_out st @ concat rest @ ys)"
    using bl od by (simp add: append_assoc [symmetric] del: append_assoc)
  then show ?thesis by simp
qed

lemma decompress_run_append:
  "decompress_run cmp dcmp s (ds @ gs) =
     (case decompress_run cmp dcmp s ds of
        Inl f \<Rightarrow> Inl f
      | Inr (r, s') \<Rightarrow> if r = Z_OK then decompress_run cmp dcmp s' gs else Inr (r, s'))"
proof (induction ds arbitrary: s)
  case Nil
  show ?case by simp
next
  case (Cons c ds)
  obtain extra room where c: "c = (extra, room)" by (cases c) auto
  show ?case
  proof (cases "fastlzlibDecompress cmp dcmp (offer s extra room)")
    case (Inl f)
    then show ?thesis by (simp add: c)
  next
    case (Inr p)
    obtain r s' where p: "p = (r, s')" by (cases p)
    show ?thesis using Inr p Cons.IH [of s'] by (simp add: c)
  qed
qed

lemma wire_append:
  "wire cmp l bs (a @ b) e = wire cmp l bs a False @ wire cmp l bs b e"
  by (simp add: wire_def)

lemma wire_short:
  assumes "length (wire cmp l bs blocks e) < 20"
  shows "blocks = [] \<and> \<not> e"
proof (cases blocks)
  case Nil
  with assms show ?thesis using length_eof_marker [of bs] by (cases e) (simp_all add: wire_def)
next
  case (Cons x xs)
  have "20 \<le> length (frame cmp l bs x)" by (simp add: length_frame)
  with assms Cons show ?thesis by (simp add: wire_def)
qed

lemma decomp_inv_length:
  assumes "decomp_inv cmp l bs bd s blocks e future"
  shows "length (out_data s) \<le> length (concat blocks)"
proof -
  from decomp_inv_prefix [OF assms, of "[]"]
  have "length (take (length (out_data s)) (concat blocks)) = length (out_data s)" by simp
  then show ?thesis by simp
qed

text \<open>With all of the stream handed over, a decoder that has nothing pending and nothing in
  its input window has delivered everything.\<close>

lemma decomp_inv_stalled:
  assumes inv: "decomp_inv cmp l bs bd s blocks e []"
    and np: "\<not> pending s" and w: "window_bytes (in_win s) = []"
  shows "out_data s = concat blocks"
proof -
  from inv obtain st decoded rest where st: "state s = Some st"
    and hh: "inHdrOffs st < HEADER_SIZE"
    and bl: "blocks = decoded @ rest"
    and od: "out_data s @ pending_out st = concat decoded"
    and stage: "if str_size st = 0
            then take (inHdrOffs st) (inHdr st) @ window_bytes (in_win s) @ []
                   = wire cmp l bs rest e
            else inHdrOffs st = 0 \<and> \<not> ZFAST_HAS_BUFFERED_OUTPUT st
                 \<and> inBuffOffs st < str_size st \<and> inBuffOffs st \<le> length (inBuff st)
                 \<and> (\<exists>x rest'. rest = x # rest' \<and> block_type st = block_kind x
                       \<and> str_size st = length (block_payload cmp l x) \<and> dec_size st = length x
                       \<and> take (inBuffOffs st) (inBuff st) @ window_bytes (in_win s) @ []
                            = block_payload cmp l x @ wire cmp l bs rest' e)"
    unfolding decomp_inv_def by blast
  have po: "pending_out st = []"
    using np st by (simp add: pending_def pending_out_def ZFAST_HAS_BUFFERED_OUTPUT_def)
  have z: "str_size st = 0"
  proof (rule ccontr)
    assume nz: "str_size st \<noteq> 0"
    with stage w obtain x rest' where i: "inBuffOffs st < length (block_payload cmp l x)"
      and eq: "take (inBuffOffs st) (inBuff st) = block_payload cmp l x @ wire cmp l bs rest' e"
      by auto
    have "length (take (inBuffOffs st) (inBuff st)) \<le> inBuffOffs st" by simp
    moreover have "length (block_payload cmp l x) \<le> length (take (inBuffOffs st) (inBuff st))"
      unfolding eq by simp
    ultimately show False using i by linarith
  qed
  with stage w have eq: "take (inHdrOffs st) (inHdr st) = wire cmp l bs rest e" by simp
  have "length (take (inHdrOffs st) (inHdr st)) \<le> inHdrOffs st" by simp
  with hh have "length (wire cmp l bs rest e) < 20"
    unfolding eq [symmetric] by (simp add: HEADER_SIZE_def)
  from wire_short [OF this] have "rest = []" by simp
  with bl od po show ?thesis by simp
qed

lemma decomp_inv_window:
  assumes inv: "decomp_inv cmp l bs bd s blocks e []"
  shows "length (window_bytes (in_win s)) \<le> length (wire cmp l bs blocks e)"
proof -
  from inv obtain st decoded rest where bl: "blocks = decoded @ rest"
    and stage: "if str_size st = 0
            then take (inHdrOffs st) (inHdr st) @ window_bytes (in_win s) @ []
                   = wire cmp l bs rest e
            else inHdrOffs st = 0 \<and> \<not> ZFAST_HAS_BUFFERED_OUTPUT st
                 \<and> inBuffOffs st < str_size st \<and> inBuffOffs st \<le> length (inBuff st)
                 \<and> (\<exists>x rest'. rest = x # rest' \<and> block_type st = block_kind x
                       \<and> str_size st = length (block_payload cmp l x) \<and> dec_size st = length x
                       \<and> take (inBuffOffs st) (inBuff st) @ window_bytes (in_win s) @ []
                            = block_payload cmp l x @ wire cmp l bs rest' e)"
    unfolding decomp_inv_def by blast
  have "length (window_bytes (in_win s)) \<le> length (wire cmp l bs rest e)"
  proof (cases "str_size st = 0")
    case True
    with stage have "take (inHdrOffs st) (inHdr st) @ window_bytes (in_win s) = wire cmp l bs rest e"
      by simp
    then have "length (wire cmp l bs rest e)
        = length (take (inHdrOffs st) (inHdr st)) + length (window_bytes (in_win s))"
      by (metis length_append)
    then show ?thesis by simp
  next
    case False
    with stage obtain x rest' where rest: "rest = x # rest'"
      and eq: "take (inBuffOffs st) (inBuff st) @ window_bytes (in_win s)
                            = block_payload cmp l x @ wire cmp l bs rest' e"
      by auto
    from eq have "length (block_payload cmp l x @ wire cmp l bs rest' e)
        = length (take (inBuffOffs st) (inBuff st)) + length (window_bytes (in_win s))"
      by (metis length_append)
    then have "length (window_bytes (in_win s)) \<le> length (block_payload cmp l x @ wire cmp l bs rest' e)"
      by simp
    also have "\<dots> \<le> length (wire cmp l bs rest e)"
      unfolding rest wire_Cons by simp
    finally show ?thesis .
  qed
  also have "\<dots> \<le> length (wire cmp l bs blocks e)"
    unfolding bl wire_append by simp
  finally show ?thesis .
qed

text \<open>A call without input, with room for output, after all of the stream has been handed
  over: it ends the stream, or it keeps the invariant and brings the measure down.\<close>

lemma decompress_progress:
  assumes inv: "decomp_inv cmp l bs bd s blocks e []"
    and ll: "lossless cmp dcmp bs" and be: "bounded_expansion cmp bs" and l: "l = 1 \<or> l = 2"
    and wf: "list_all (\<lambda>b. b \<noteq> [] \<and> length b \<le> bs) blocks"
    and bsd: "bs \<le> bd" and big: "bd \<le> 2 ^ 20" and room: "room \<noteq> []"
    and n: "n = length (concat blocks)"
  shows "\<exists>r s'. fastlzlibDecompress cmp dcmp (offer s [] room) = Inr (r, s')
     \<and> (if r = Z_OK
         then decomp_inv cmp l bs bd s' blocks e []
              \<and> decomp_measure n s' \<le> decomp_measure n s
              \<and> (0 < decomp_measure n s \<longrightarrow> decomp_measure n s' < decomp_measure n s)
         else r = Z_STREAM_END \<and> e \<and> out_data s' = concat blocks)"
proof -
  have inv': "decomp_inv cmp l bs bd s blocks e ([] @ [])" using inv by simp
  from decompress_step [OF inv' ll be l wf bsd big, of room]
  obtain r s' where step: "fastlzlibDecompress cmp dcmp (offer s [] room) = Inr (r, s')"
    and res: "if r = Z_OK
         then decomp_inv cmp l bs bd s' blocks e []
              \<and> dec_progress (offer s [] room) (window_bytes (in_win s) @ []) room s'
         else r = Z_STREAM_END \<and> e \<and> out_data s' = concat blocks"
    by blast
  show ?thesis
  proof (cases "r = Z_OK")
    case False
    with step res show ?thesis by (intro exI [of _ r] exI [of _ s']) simp
  next
    case True
    with res have inv1: "decomp_inv cmp l bs bd s' blocks e []"
      and prog: "dec_progress (offer s [] room) (window_bytes (in_win s)) room s'"
      by simp_all
    define o1 where "o1 = length (out_data s)"
    define o2 where "o2 = length (out_data s')"
    define w1 where "w1 = length (window_bytes (in_win s))"
    define w2 where "w2 = length (window_bytes (in_win s'))"
    have pe: "pending (offer s [] room) = pending s" by (simp add: pending_def offer_def)
    have oe: "out_data (offer s [] room) = out_data s" by (simp add: offer_def)
    from prog have a: "o1 \<le> o2" and b: "w2 \<le> w1"
      and c: "pending s \<Longrightarrow> o1 < o2"
      and d: "\<not> pending s \<Longrightarrow> window_bytes (in_win s) \<noteq> [] \<Longrightarrow> w2 < w1"
      using room by (simp_all add: dec_progress_def pe oe o1_def o2_def w1_def w2_def)
    have o2n: "o2 \<le> n" unfolding o2_def n by (rule decomp_inv_length [OF inv1])
    have m1: "decomp_measure n s = (n - o1) + w1"
      and m2: "decomp_measure n s' = (n - o2) + w2"
      by (simp_all add: decomp_measure_def o1_def o2_def w1_def w2_def)
    have le: "decomp_measure n s' \<le> decomp_measure n s"
      unfolding m1 m2 using a b by linarith
    have lt: "decomp_measure n s' < decomp_measure n s" if pos: "0 < decomp_measure n s"
    proof (cases "pending s")
      case True
      from c [OF True] o2n b show ?thesis unfolding m1 m2 by linarith
    next
      case False
      have "window_bytes (in_win s) \<noteq> []"
      proof
        assume w: "window_bytes (in_win s) = []"
        from decomp_inv_stalled [OF inv False w] have "o1 = n" by (simp add: o1_def n)
        with w pos show False by (simp add: m1 w1_def)
      qed
      from d [OF False this] a show ?thesis unfolding m1 m2 by linarith
    qed
    show ?thesis
      using step True inv1 le lt by (intro exI [of _ r] exI [of _ s']) simp
  qed
qed

lemma decompress_run_tail:
  assumes ll: "lossless cmp dcmp bs" and be: "bounded_expansion cmp bs" and l: "l = 1 \<or> l = 2"
    and wf: "list_all (\<lambda>b. b \<noteq> [] \<and> length b \<le> bs) blocks"
    and bsd: "bs \<le> bd" and big: "bd \<le> 2 ^ 20"
    and n: "n = length (concat blocks)"
  shows "decomp_inv cmp l bs bd s blocks e []
    \<Longrightarrow> list_all (\<lambda>(m, r). m = [] \<and> r \<noteq> []) gs
    \<Longrightarrow> decomp_measure n s \<le> length gs
    \<Longrightarrow> \<exists>r s'. decompress_run cmp dcmp s gs = Inr (r, s')
          \<and> (r = Z_OK \<or> r = Z_STREAM_END) \<and> out_data s' = concat blocks"
proof (induction gs arbitrary: s)
  case Nil
  then have "n - length (out_data s) = 0" by (simp add: decomp_measure_def)
  moreover have "length (out_data s) \<le> n" unfolding n by (rule decomp_inv_length [OF Nil.prems(1)])
  ultimately have "length (out_data s) = length (concat blocks)" using n by simp
  with decomp_inv_prefix [OF Nil.prems(1), of "[]"] have "out_data s = concat blocks" by simp
  then show ?case by simp
next
  case (Cons c gs)
  obtain extra room where c: "c = (extra, room)" by (cases c) auto
  from Cons.prems(2) c have ex: "extra = []" and room: "room \<noteq> []"
    and rest: "list_all (\<lambda>(m, r). m = [] \<and> r \<noteq> []) gs" by auto
  from decompress_progress [OF Cons.prems(1) ll be l wf bsd big room n]
  obtain r s' where step: "fastlzlibDecompress cmp dcmp (offer s [] room) = Inr (r, s')"
    and res: "if r = Z_OK
         then decomp_inv cmp l bs bd s' blocks e []
              \<and> decomp_measure n s' \<le> decomp_measure n s
              \<and> (0 < decomp_measure n s \<longrightarrow> decomp_measure n s' < decomp_measure n s)
         else r = Z_STREAM_END \<and> e \<and> out_data s' = concat blocks"
    by blast
  have run: "decompress_run cmp dcmp s (c # gs)
      = (if r = Z_OK then decompress_run cmp dcmp s' gs else Inr (r, s'))"
    using step by (simp add: c ex)
  show ?case
  proof (cases "r = Z_OK")
    case True
    with res have inv1: "decomp_inv cmp l bs bd s' blocks e []"
      and le: "decomp_measure n s' \<le> decomp_measure n s"
      and lt: "0 < decomp_measure n s \<longrightarrow> decomp_measure n s' < decomp_measure n s"
      by simp_all
    have "decomp_measure n s' \<le> length gs"
      using le lt Cons.prems(3) by (cases "decomp_measure n s = 0") auto
    from Cons.IH [OF inv1 rest this] show ?thesis unfolding run using True by simp
  next
    case False
    with res show ?thesis unfolding run by (intro exI [of _ r] exI [of _ s']) simp
  qed
qed

text \<open>The streams that the initialisation functions return satisfy the invariants.\<close>

lemma compress_init_inv:
  assumes ci: "fastlzlibCompressInit2 zalloc (Some fresh_stream) lvl (int bs) = Inr (Z_OK, Some sc)"
    and bs: "bs < 2 ^ 32"
  shows "comp_inv cmp bs sc [] False"
proof -
  from ci obtain s1 where i: "fastlzlibInit zalloc (Some fresh_stream) (int bs) = Inr (Z_OK, Some s1)"
    by (auto simp: fastlzlibCompressInit2_def split: sum.splits prod.splits if_splits option.splits)
  from i obtain st1 where s1: "s1 = fresh_stream\<lparr>msg := None, state := Some st1\<rparr>"
    and f: "block_size st1 = nat (int bs mod 2 ^ 32)" "str_size st1 = 0" "dec_size st1 = 0"
      "outBuffOffs st1 = 0"
    by (auto simp: fastlzlibInit_def fastlzlibReset_def Let_def const_defs
        split: option.splits)
  define lv where "lv = (if lvl < Z_NO_COMPRESSION \<or> lvl > Z_BEST_COMPRESSION
                              then Z_BEST_COMPRESSION else lvl)"
  have sc: "sc = s1\<lparr>state := Some (st1\<lparr>level := lv\<rparr>)\<rparr>"
    using ci i by (simp add: fastlzlibCompressInit2_def s1 lv_def)
  have lv: "lv \<noteq> ZFAST_LEVEL_DECOMPRESS" by (simp add: lv_def const_defs)
  have b: "nat (int bs mod 2 ^ 32) = bs" using bs by simp
  show ?thesis
    unfolding comp_inv_def
    apply (rule exI [of _ "st1\<lparr>level := lv\<rparr>"], rule exI [of _ "[]"])
    using f lv b
    by (simp add: sc s1 fresh_stream_def ZFAST_IS_COMPRESSING_def pending_out_def staged_def
        wire_def ZFAST_HAS_BUFFERED_OUTPUT_def)
qed

lemma decompress_init_inv:
  assumes di: "fastlzlibDecompressInit2 zalloc (Some fresh_stream) (int bd) = Inr (Z_OK, Some sd)"
    and al: "\<And>m. zalloc SIZEOF_STATE 1 = Some m \<Longrightarrow> length m = SIZEOF_STATE"
    and bd: "bd < 2 ^ 32"
  shows "decomp_inv cmp l bs bd sd blocks e (wire cmp l bs blocks e)"
proof -
  from di obtain s1 where i: "fastlzlibInit zalloc (Some fresh_stream) (int bd) = Inr (Z_OK, Some s1)"
    by (auto simp: fastlzlibDecompressInit2_def split: sum.splits prod.splits if_splits option.splits)
  from i obtain m where m: "zalloc SIZEOF_STATE 1 = Some m"
    by (auto simp: fastlzlibInit_def split: option.splits)
  from al [OF m] have lm: "length m = 80" by (simp add: SIZEOF_STATE_def)
  from i m obtain st1 where s1: "s1 = fresh_stream\<lparr>msg := None, state := Some st1\<rparr>"
    and f: "block_size st1 = nat (int bd mod 2 ^ 32)" "str_size st1 = 0" "dec_size st1 = 0"
      "outBuffOffs st1 = 0" "inHdrOffs st1 = 0" "inHdr st1 = take HEADER_SIZE (drop 12 m)"
    by (auto simp: fastlzlibInit_def fastlzlibReset_def Let_def const_defs
        split: option.splits)
  have sd: "sd = s1\<lparr>state := Some (st1\<lparr>level := ZFAST_LEVEL_DECOMPRESS\<rparr>)\<rparr>"
    using di i by (simp add: fastlzlibDecompressInit2_def s1)
  have b: "nat (int bd mod 2 ^ 32) = bd" using bd by simp
  show ?thesis
    unfolding decomp_inv_def
    apply (rule exI [of _ "st1\<lparr>level := ZFAST_LEVEL_DECOMPRESS\<rparr>"], rule exI [of _ "[]"],
        rule exI [of _ blocks])
    using f b lm
    by (simp add: sd s1 fresh_stream_def ZFAST_IS_DECOMPRESSING_def ZFAST_IS_COMPRESSING_def
        pending_out_def ZFAST_HAS_BUFFERED_OUTPUT_def HEADER_SIZE_def)
qed

text \<open>Any run, complete or not: no call fails or returns an error, and what the
  decompressor has delivered is a prefix of the input of the compressor.\<close>

lemma round_trip_prefix:
  assumes ll: "lossless cmp dcmp bs" and be: "bounded_expansion cmp bs"
    and pos: "0 < bs" and bsd: "bs \<le> bd" and big: "bd \<le> 2 ^ 20"
    and ci: "fastlzlibCompressInit2 zalloc (Some fresh_stream) lvl (int bs) = Inr (Z_OK, Some sc)"
    and di: "fastlzlibDecompressInit2 zalloc' (Some fresh_stream) (int bd) = Inr (Z_OK, Some sd)"
    and al: "\<And>m. zalloc' SIZEOF_STATE 1 = Some m \<Longrightarrow> length m = SIZEOF_STATE"
    and fin: "finishing cs"
  shows "\<exists>r sc'. compress_run cmp dcmp sc cs = Inr (r, sc')
     \<and> (r = Z_OK \<or> r = Z_STREAM_END)
     \<and> (\<forall>ds. concat (map fst ds) = out_data sc' \<longrightarrow>
          (\<exists>r' sd'. decompress_run cmp dcmp sd ds = Inr (r', sd')
             \<and> (r' = Z_OK \<or> r' = Z_STREAM_END)
             \<and> take (length (out_data sd')) (concat (map fst cs)) = out_data sd'
             \<and> (r' = Z_STREAM_END \<longrightarrow> out_data sd' = concat (map fst cs))))"
proof -
  have bs20: "bs \<le> 2 ^ 20" using bsd big by simp
  have bs32: "bs < 2 ^ 32" using bs20 by simp
  have bd32: "bd < 2 ^ 32" using big by simp
  have ci': "comp_inv cmp bs sc [] False"
    by (rule compress_init_inv [OF ci bs32])
  from compress_run_inv [OF be pos bs20 ci' fin, of dcmp]
  obtain r sc' e where run: "compress_run cmp dcmp sc cs = Inr (r, sc')"
    and r: "r = Z_OK \<or> r = Z_STREAM_END"
    and inv: "comp_inv cmp bs sc' (concat (map fst cs)) e"
    by auto
  define X where "X = concat (map fst cs)"
  from inv obtain st blocks where st: "state sc' = Some st"
    and wf: "list_all (\<lambda>b. b \<noteq> [] \<and> length b \<le> bs) blocks"
    and od: "out_data sc' @ pending_out st = wire cmp (zlibLevelToFastlz (level st)) bs blocks e"
    and sup: "concat blocks @ staged st @ window_bytes (in_win sc') = X"
    and ee0: "if e then str_size st = 0 \<and> window_bytes (in_win sc') = [] else True"
    unfolding comp_inv_def X_def by blast
  define l where "l = zlibLevelToFastlz (level st)"
  have l: "l = 1 \<or> l = 2" by (simp add: l_def zlibLevelToFastlz_def)
  have eX: "e \<Longrightarrow> concat blocks = X"
    using ee0 sup by (simp add: staged_def)
  have di': "decomp_inv cmp l bs bd sd blocks e (out_data sc' @ pending_out st)"
    unfolding od l_def [symmetric]
    by (rule decompress_init_inv [OF di al bd32])
  have dec: "\<exists>r' sd'. decompress_run cmp dcmp sd ds = Inr (r', sd')
             \<and> (r' = Z_OK \<or> r' = Z_STREAM_END)
             \<and> take (length (out_data sd')) X = out_data sd'
             \<and> (r' = Z_STREAM_END \<longrightarrow> out_data sd' = X)"
    if ds: "concat (map fst ds) = out_data sc'" for ds
  proof -
    have "decomp_inv cmp l bs bd sd blocks e (concat (map fst ds) @ pending_out st)"
      using di' ds by simp
    from decompress_run_inv [OF ll be l wf bsd big this]
    obtain r' sd' where drun: "decompress_run cmp dcmp sd ds = Inr (r', sd')"
      and res: "if r' = Z_OK then decomp_inv cmp l bs bd sd' blocks e (pending_out st)
              else r' = Z_STREAM_END \<and> e \<and> out_data sd' = concat blocks"
      by blast
    have r': "r' = Z_OK \<or> r' = Z_STREAM_END" using res by (auto split: if_splits)
    have X: "X = concat blocks @ staged st @ window_bytes (in_win sc')" using sup by simp
    have pre: "take (length (out_data sd')) X = out_data sd'"
    proof (cases "r' = Z_OK")
      case True
      with res have "decomp_inv cmp l bs bd sd' blocks e (pending_out st)" by simp
      from decomp_inv_prefix [OF this] show ?thesis unfolding X .
    next
      case False
      with res have "out_data sd' = concat blocks" by simp
      then show ?thesis unfolding X by simp
    qed
    have full: "out_data sd' = X" if "r' = Z_STREAM_END"
    proof -
      from that have "r' \<noteq> Z_OK" by (simp add: const_defs)
      with res eX show ?thesis by simp
    qed
    show ?thesis
      using drun r' pre full by blast
  qed
  show ?thesis
    unfolding X_def [symmetric]
    apply (rule exI [of _ r], rule exI [of _ sc'])
    using run r dec by blast
qed

lemma decomp_measure_bound:
  assumes inv: "decomp_inv cmp l bs bd s blocks e []"
    and be: "bounded_expansion cmp bs" and l: "l = 1 \<or> l = 2"
    and wf: "list_all (\<lambda>b. b \<noteq> [] \<and> length b \<le> bs) blocks"
  shows "decomp_measure (length (concat blocks)) s \<le> decompress_calls (length (concat blocks))"
proof -
  have "length (window_bytes (in_win s)) \<le> length (wire cmp l bs blocks e)"
    by (rule decomp_inv_window [OF inv])
  also have "\<dots> \<le> 22 * length (concat blocks) + 20"
    by (rule wire_length_bound [OF be l wf])
  finally show ?thesis by (simp add: decomp_measure_def decompress_calls_def)
qed

text \<open>
  C1, with the bound on the expansion that \<^verbatim>\<open>fastlz_compress_hdr\<close> asserts, and with both
  streams driven to their end. The block primitives are lossless on blocks of more than
  \<^verbatim>\<open>MIN_BLOCK_SIZE\<close> and at most \<open>bs\<close> bytes, and the compressed block is at most a tenth
  longer than the block. The compressing stream is initialised with any level and the
  block size \<open>bs\<close>, the decompressing stream with a block size \<open>bd\<close> that is at least \<open>bs\<close>
  and at most \<open>2 ^ 20\<close>. The calls \<open>cs\<close> hand the input to the compressor in any chunks,
  with any output windows (empty ones too), with \<^verbatim>\<open>Z_NO_FLUSH\<close> or from some call on with
  \<^verbatim>\<open>Z_FINISH\<close>; the calls \<open>fs\<close> that follow use \<^verbatim>\<open>Z_FINISH\<close>, bring no input and have room
  for at least one byte of output, and there are at least \<open>compress_calls\<close> of them. Then
  the compressing run does return \<^verbatim>\<open>Z_STREAM_END\<close>, and the bytes it has produced are the
  frames of blocks that make up the input, with or without the end-of-stream marker. For
  every way \<open>ds\<close> of handing these bytes to the decompressor, in any chunks and with any
  output windows, followed by at least \<open>decompress_calls\<close> calls \<open>gs\<close> with no input and
  room for at least one byte of output, the decompressing run returns \<^verbatim>\<open>Z_OK\<close> or
  \<^verbatim>\<open>Z_STREAM_END\<close> and has delivered exactly the input. No call of either run fails an
  assertion or returns an error.
\<close>

theorem round_trip:
  assumes ll: "lossless cmp dcmp bs" and be: "bounded_expansion cmp bs"
    and pos: "0 < bs" and bsd: "bs \<le> bd" and big: "bd \<le> 2 ^ 20"
    and ci: "fastlzlibCompressInit2 zalloc (Some fresh_stream) lvl (int bs) = Inr (Z_OK, Some sc)"
    and di: "fastlzlibDecompressInit2 zalloc' (Some fresh_stream) (int bd) = Inr (Z_OK, Some sd)"
    and al: "\<And>m. zalloc' SIZEOF_STATE 1 = Some m \<Longrightarrow> length m = SIZEOF_STATE"
    and fin: "finishing cs"
    and fs: "list_all (\<lambda>(m, r, f). m = [] \<and> r \<noteq> [] \<and> f = Z_FINISH) fs"
    and n: "compress_calls bs (length (concat (map fst cs))) \<le> length fs"
  shows "\<exists>sc' l blocks e.
       compress_run cmp dcmp sc (cs @ fs) = Inr (Z_STREAM_END, sc')
     \<and> (l = 1 \<or> l = 2) \<and> concat blocks = concat (map fst cs)
     \<and> out_data sc' = wire cmp l bs blocks e
     \<and> (\<forall>ds gs. concat (map fst ds) = out_data sc'
            \<and> list_all (\<lambda>(m, r). m = [] \<and> r \<noteq> []) gs
            \<and> decompress_calls (length (concat (map fst cs))) \<le> length gs \<longrightarrow>
          (\<exists>r' sd'. decompress_run cmp dcmp sd (ds @ gs) = Inr (r', sd')
             \<and> (r' = Z_OK \<or> r' = Z_STREAM_END)
             \<and> out_data sd' = concat (map fst cs)))"
proof -
  have bs20: "bs \<le> 2 ^ 20" using bsd big by simp
  have bs32: "bs < 2 ^ 32" using bs20 by simp
  have bd32: "bd < 2 ^ 32" using big by simp
  define X where "X = concat (map fst cs)"
  have ci': "comp_inv cmp bs sc [] False"
    by (rule compress_init_inv [OF ci bs32])
  from compress_run_total [OF be pos bs20 ci' fin fs n, of dcmp]
  obtain sc' e where run: "compress_run cmp dcmp sc (cs @ fs) = Inr (Z_STREAM_END, sc')"
    and inv: "comp_inv cmp bs sc' X e"
    and final: "comp_final sc'"
    unfolding X_def by blast
  from inv obtain st blocks where st: "state sc' = Some st"
    and wf: "list_all (\<lambda>b. b \<noteq> [] \<and> length b \<le> bs) blocks"
    and od: "out_data sc' @ pending_out st = wire cmp (zlibLevelToFastlz (level st)) bs blocks e"
    and sup: "concat blocks @ staged st @ window_bytes (in_win sc') = X"
    unfolding comp_inv_def by blast
  define l where "l = zlibLevelToFastlz (level st)"
  have l: "l = 1 \<or> l = 2" by (simp add: l_def zlibLevelToFastlz_def)
  from final st have po: "pending_out st = []" and sg: "staged st = []"
    and wn: "window_bytes (in_win sc') = []"
    by (auto simp: comp_final_def staged_def pending_out_def ZFAST_HAS_BUFFERED_OUTPUT_def)
  have cb: "concat blocks = X" using sup sg wn by simp
  have ow: "out_data sc' = wire cmp l bs blocks e" using od po by (simp add: l_def)
  have di': "decomp_inv cmp l bs bd sd blocks e (out_data sc')"
    unfolding ow by (rule decompress_init_inv [OF di al bd32])
  have dec: "\<exists>r' sd'. decompress_run cmp dcmp sd (ds @ gs) = Inr (r', sd')
             \<and> (r' = Z_OK \<or> r' = Z_STREAM_END) \<and> out_data sd' = X"
    if ds: "concat (map fst ds) = out_data sc'"
      and gs: "list_all (\<lambda>(m, r). m = [] \<and> r \<noteq> []) gs"
      and m: "decompress_calls (length X) \<le> length gs" for ds gs
  proof -
    have "decomp_inv cmp l bs bd sd blocks e (concat (map fst ds) @ [])"
      using di' ds by simp
    from decompress_run_inv [OF ll be l wf bsd big this]
    obtain r1 s1 where run1: "decompress_run cmp dcmp sd ds = Inr (r1, s1)"
      and res1: "if r1 = Z_OK then decomp_inv cmp l bs bd s1 blocks e []
              else r1 = Z_STREAM_END \<and> e \<and> out_data s1 = concat blocks"
      by blast
    have app: "decompress_run cmp dcmp sd (ds @ gs)
        = (if r1 = Z_OK then decompress_run cmp dcmp s1 gs else Inr (r1, s1))"
      unfolding decompress_run_append run1 by simp
    show ?thesis
    proof (cases "r1 = Z_OK")
      case True
      with res1 have inv1: "decomp_inv cmp l bs bd s1 blocks e []" by simp
      have "decomp_measure (length (concat blocks)) s1 \<le> length gs"
        using decomp_measure_bound [OF inv1 be l wf] m unfolding cb by simp
      from decompress_run_tail [OF ll be l wf bsd big refl inv1 gs this]
      show ?thesis unfolding app cb using True by simp
    next
      case False
      with res1 cb show ?thesis unfolding app
        by (intro exI [of _ r1] exI [of _ s1]) simp
    qed
  qed
  show ?thesis
    unfolding X_def [symmetric]
    apply (rule exI [of _ sc'], rule exI [of _ l], rule exI [of _ blocks], rule exI [of _ e])
    using run l cb ow dec by blast
qed

text \<open>The compressing run over the 120 bytes with the storing primitives and block size
  100, evaluated: two of the \<^verbatim>\<open>Z_FINISH\<close> calls are used.\<close>

lemma long_compress_run:
  "status_of (compress_run store_cmp store_dcmp (compressor 100)
      (long_calls @ finish_calls (Suc (Suc n)))) = Some Z_STREAM_END
   \<and> out_data (stream_of (compress_run store_cmp store_dcmp (compressor 100)
      (long_calls @ finish_calls (Suc (Suc n))))) = long_wire"
proof -
  note lw = length_write_header [unfolded HEADER_SIZE_def]
  show ?thesis
    by (simp add: long_calls_def finish_calls_def long_wire_def long_input_def compressor_eq
        offer_def process_defs macro_defs const_defs Let_def lw store_cmp_def)
qed

text \<open>
  Without the bound on the expansion the compressor stops at an assertion: the doubling
  primitives are lossless, and with block size 100 and level 9 a single \<^verbatim>\<open>Z_FINISH\<close> call
  over 65 bytes, with room for 200 bytes of output, fails the assertion
  \<^verbatim>\<open>done + HEADER_SIZE*2 <= output_length\<close> of \<^verbatim>\<open>fastlz_compress_hdr\<close>.
\<close>

theorem round_trip_lossless_only_counterexample:
  "lossless dbl_cmp dbl_dcmp 100
   \<and> compress_run dbl_cmp dbl_dcmp (compressor 100) [(replicate 65 0, replicate 200 0, Z_FINISH)]
       = Inl Assert_Failed"
proof -
  have "lossless dbl_cmp dbl_dcmp 100"
    by (simp add: lossless_def dbl_cmp_def dbl_dcmp_def)
  moreover have "compress_run dbl_cmp dbl_dcmp (compressor 100)
      [(replicate 65 0, replicate 200 0, Z_FINISH)] = Inl Assert_Failed"
    by (simp add: compressor_eq offer_def process_defs macro_defs const_defs Let_def dbl_cmp_def)
  ultimately show ?thesis by simp
qed

text \<open>
  The theorem at block size 100 with the storing primitives, over the 120 bytes handed
  over in three calls: the first block goes through the compressor. After 21000 calls
  with \<^verbatim>\<open>Z_FINISH\<close> the compressor has returned \<^verbatim>\<open>Z_STREAM_END\<close> and produced \<open>long_wire\<close>;
  the decompressor, given these bytes in two chunks and then 2800 calls with room for one
  byte each, delivers the 120 bytes.
\<close>

theorem round_trip_witness:
  "lossless store_cmp store_dcmp 100 \<and> bounded_expansion store_cmp 100 \<and> finishing long_calls
   \<and> concat (map fst long_calls) = long_input \<and> length long_input = 120
   \<and> compress_calls 100 120 \<le> length (finish_calls 21000)
   \<and> decompress_calls 120 \<le> length (output_calls 2800)
   \<and> status_of (compress_run store_cmp store_dcmp (compressor 100)
         (long_calls @ finish_calls 21000)) = Some Z_STREAM_END
   \<and> out_data (stream_of (compress_run store_cmp store_dcmp (compressor 100)
         (long_calls @ finish_calls 21000))) = long_wire
   \<and> out_data (stream_of (decompress_run store_cmp store_dcmp (decompressor 100)
         ([(take 70 long_wire, replicate 10 0), (drop 70 long_wire, [])] @ output_calls 2800)))
       = long_input"
proof -
  have ll: "lossless store_cmp store_dcmp 100"
    by (simp add: lossless_def store_cmp_def store_dcmp_def)
  have be: "bounded_expansion store_cmp 100"
    by (simp add: bounded_expansion_def store_cmp_def)
  have fin: "finishing long_calls"
    by (simp add: long_calls_def const_defs)
  have X: "concat (map fst long_calls) = long_input"
    by (simp add: long_calls_def long_input_def)
  have lX: "length long_input = 120" by (simp add: long_input_def)
  have fs: "list_all (\<lambda>(m, r, f). m = [] \<and> r \<noteq> [] \<and> f = Z_FINISH) (finish_calls 21000)"
    by (simp add: finish_calls_def list_all_iff)
  have n: "compress_calls 100 120 \<le> length (finish_calls 21000)"
    by (simp add: finish_calls_def compress_calls_def)
  have gs: "list_all (\<lambda>(m, r). m = [] \<and> r \<noteq> []) (output_calls 2800)"
    by (simp add: output_calls_def list_all_iff)
  have m: "decompress_calls 120 \<le> length (output_calls 2800)"
    by (simp add: output_calls_def decompress_calls_def)
  have ci: "fastlzlibCompressInit2 zalloc_zero (Some fresh_stream) Z_BEST_COMPRESSION (int 100)
      = Inr (Z_OK, Some (compressor 100))"
    by (simp add: compressor_def fastlzlibCompressInit2_def fastlzlibInit_def zalloc_zero_def
        fastlzlibReset_def Let_def const_defs macro_defs)
  have di: "fastlzlibDecompressInit2 zalloc_zero (Some fresh_stream) (int 100)
      = Inr (Z_OK, Some (decompressor 100))"
    by (simp add: decompressor_def fastlzlibDecompressInit2_def fastlzlibInit_def zalloc_zero_def
        fastlzlibReset_def Let_def const_defs macro_defs)
  have al: "\<And>m. zalloc_zero SIZEOF_STATE 1 = Some m \<Longrightarrow> length m = SIZEOF_STATE"
    by (auto simp: zalloc_zero_def)
  have n': "compress_calls 100 (length (concat (map fst long_calls))) \<le> length (finish_calls 21000)"
    unfolding X lX by (rule n)
  from round_trip [where bs = 100 and bd = 100 and dcmp = store_dcmp,
      OF ll be _ _ _ ci di al fin fs n']
  obtain sc' where crun: "compress_run store_cmp store_dcmp (compressor 100)
        (long_calls @ finish_calls 21000) = Inr (Z_STREAM_END, sc')"
    and dec: "\<forall>ds gs. concat (map fst ds) = out_data sc'
            \<and> list_all (\<lambda>(m, r). m = [] \<and> r \<noteq> []) gs
            \<and> decompress_calls (length (concat (map fst long_calls))) \<le> length gs \<longrightarrow>
          (\<exists>r' sd'. decompress_run store_cmp store_dcmp (decompressor 100) (ds @ gs) = Inr (r', sd')
             \<and> (r' = Z_OK \<or> r' = Z_STREAM_END)
             \<and> out_data sd' = concat (map fst long_calls))"
    by auto
  have "(21000 :: nat) = Suc (Suc 20998)" by simp
  from long_compress_run [of 20998, folded this] crun have w: "out_data sc' = long_wire"
    by simp
  define ds where "ds = [(take 70 long_wire, replicate 10 (0 :: byte)), (drop 70 long_wire, [])]"
  have "concat (map fst ds) = out_data sc'" by (simp add: ds_def w)
  with dec gs m obtain r' sd' where
    drun: "decompress_run store_cmp store_dcmp (decompressor 100) (ds @ output_calls 2800)
             = Inr (r', sd')"
    and full: "out_data sd' = concat (map fst long_calls)"
    unfolding X lX by blast
  show ?thesis
    using ll be fin X lX n m crun w drun full by (simp add: ds_def)
qed

end
